theory Spec2Isabelle
  imports Main
begin

section \<open>The debounce primitive (frontend/src/utils/debounce.js)\<close>

text \<open>
  \<^verbatim>\<open>debounce(func, wait)\<close> keeps one closure variable, \<^verbatim>\<open>timeoutId\<close>, which is
  \<^verbatim>\<open>null\<close> or the handle that \<^verbatim>\<open>setTimeout\<close> returned. The timers themselves live in
  the host (the browser): the model keeps the host's table of live timers, each with its
  handle, its due time in milliseconds and the arguments its callback captured, and the
  next free handle. Every \<^verbatim>\<open>func.apply(this, args)\<close> is logged in \<open>executions\<close>,
  oldest first. The callback \<^verbatim>\<open>func\<close> does not call the debounced function itself.
\<close>

text \<open>
  The delay of \<^verbatim>\<open>setTimeout\<close> is a signed 32-bit integer in browsers: the argument is
  taken modulo \<open>2^32\<close>, and a value that reads negative (from \<open>2^31\<close> on) counts as
  \<open>0\<close>, so that the timer is due at once.
\<close>

definition setTimeout_delay :: "nat \<Rightarrow> nat" where
  "setTimeout_delay delay =
     (let d = delay mod 4294967296 in if 2147483648 \<le> d then 0 else d)"

record 'a debounce_state =
  timeoutId :: "nat option"
  timers :: "(nat \<times> nat \<times> 'a) list"
  nextTimer :: nat
  executions :: "'a list"

text \<open>A debounced function just created: no timer set, nothing executed.\<close>

definition debounce :: "'a debounce_state" where
  "debounce = \<lparr>timeoutId = None, timers = [], nextTimer = 1, executions = []\<rparr>"

text \<open>
  \<^verbatim>\<open>setTimeout(callback, delay)\<close> called at time \<open>now\<close>: a new timer in the host's
  table; the handle is returned. \<^verbatim>\<open>clearTimeout(id)\<close> removes the timer with that
  handle, if it is still there.
\<close>

definition setTimeout :: "nat \<Rightarrow> nat \<Rightarrow> 'a \<Rightarrow> 'a debounce_state \<Rightarrow> nat \<times> 'a debounce_state" where
  "setTimeout now delay args s =
     (nextTimer s,
      s\<lparr>timers := timers s @ [(nextTimer s, now + setTimeout_delay delay, args)],
        nextTimer := Suc (nextTimer s)\<rparr>)"

definition clearTimeout :: "nat \<Rightarrow> 'a debounce_state \<Rightarrow> 'a debounce_state" where
  "clearTimeout i s = s\<lparr>timers := filter (\<lambda>(j, due, args). j \<noteq> i) (timers s)\<rparr>"

text \<open>The timer callback: \<^verbatim>\<open>func.apply(this, args); timeoutId = null\<close>.\<close>

definition timer_callback :: "'a \<Rightarrow> 'a debounce_state \<Rightarrow> 'a debounce_state" where
  "timer_callback args s = s\<lparr>executions := executions s @ [args], timeoutId := None\<rparr>"

text \<open>
  The body of \<^verbatim>\<open>debounced(...args)\<close>, called at time \<open>now\<close>: when
  \<^verbatim>\<open>timeoutId !== null\<close> the timer with that handle is cleared; then a new timer is set
  and its handle stored in \<^verbatim>\<open>timeoutId\<close>.
\<close>

definition debounced :: "nat \<Rightarrow> nat \<Rightarrow> 'a \<Rightarrow> 'a debounce_state \<Rightarrow> 'a debounce_state" where
  "debounced wait now args s =
     (let s1 = (case timeoutId s of None \<Rightarrow> s | Some i \<Rightarrow> clearTimeout i s);
          (i, s2) = setTimeout now wait args s1
      in s2\<lparr>timeoutId := Some i\<rparr>)"

text \<open>
  The body of \<^verbatim>\<open>debounced.cancel()\<close>: when \<^verbatim>\<open>timeoutId !== null\<close>, clear that timer
  and set \<^verbatim>\<open>timeoutId\<close> to \<^verbatim>\<open>null\<close>.
\<close>

definition cancel :: "'a debounce_state \<Rightarrow> 'a debounce_state" where
  "cancel s =
     (case timeoutId s of
        None \<Rightarrow> s
      | Some i \<Rightarrow> (clearTimeout i s)\<lparr>timeoutId := None\<rparr>)"

text \<open>
  A turn of the host's event loop at time \<open>t\<close>: every timer that is due leaves the
  table and its callback runs, the earliest due first. A timer never runs inside the turn
  that set it, and never before it is due; it may run late, when the host's turn comes.
\<close>

definition host_turn :: "nat \<Rightarrow> 'a debounce_state \<Rightarrow> 'a debounce_state" where
  "host_turn t s =
     (let due = filter (\<lambda>(i, d, args). d \<le> t) (timers s);
          s1 = s\<lparr>timers := filter (\<lambda>(i, d, args). \<not> d \<le> t) (timers s)\<rparr>
      in fold (\<lambda>(i, d, args). timer_callback args) (sort_key (\<lambda>(i, d, args). d) due) s1)"

text \<open>
  What happens to a debounced function, each at some time: the program invokes it, the
  program cancels it, or the host takes a turn. Two invocations with no host turn between
  them are in the same turn of the program.
\<close>

datatype 'a debounce_event = Invoke nat 'a | Cancel nat | HostTurn nat

fun event_time :: "'a debounce_event \<Rightarrow> nat" where
  "event_time (Invoke t args) = t"
| "event_time (Cancel t) = t"
| "event_time (HostTurn t) = t"

fun is_cancel :: "'a debounce_event \<Rightarrow> bool" where
  "is_cancel (Cancel t) = True"
| "is_cancel _ = False"

fun is_host_turn :: "'a debounce_event \<Rightarrow> bool" where
  "is_host_turn (HostTurn t) = True"
| "is_host_turn _ = False"

fun debounce_step :: "nat \<Rightarrow> 'a debounce_event \<Rightarrow> 'a debounce_state \<Rightarrow> 'a debounce_state" where
  "debounce_step wait (Invoke t args) s = debounced wait t args s"
| "debounce_step wait (Cancel t) s = cancel s"
| "debounce_step wait (HostTurn t) s = host_turn t s"

fun debounce_run :: "nat \<Rightarrow> 'a debounce_event list \<Rightarrow> 'a debounce_state \<Rightarrow> 'a debounce_state" where
  "debounce_run wait [] s = s"
| "debounce_run wait (e # es) s = debounce_run wait es (debounce_step wait e s)"

text \<open>
  \<open>armed bound\<close>: nothing is pending and \<^verbatim>\<open>timeoutId\<close> is \<^verbatim>\<open>null\<close>, or exactly one
  timer is live, \<^verbatim>\<open>timeoutId\<close> is its handle, and it is not due before \<open>bound\<close>.
\<close>

definition armed :: "nat \<Rightarrow> 'a debounce_state \<Rightarrow> bool" where
  "armed bound s =
     (case timers s of
        [] \<Rightarrow> timeoutId s = None
      | [(i, due, args)] \<Rightarrow> timeoutId s = Some i \<and> bound \<le> due
      | _ \<Rightarrow> False)"

section \<open>The auto-save hook (frontend/src/hooks/useAutoSave.js)\<close>

subsection \<open>JavaScript values and payloads\<close>

text \<open>
  The values the hook inspects: the \<^verbatim>\<open>postId\<close> argument of the hook, the fields of
  the content object, and the \<^verbatim>\<open>detail\<close> of a failed response. Objects held inside a
  payload (the editor state) are opaque references. Numbers are integers; \<^verbatim>\<open>NaN\<close> is
  not modelled.
\<close>

datatype jsval = JUndefined | JNull | JBool bool | JNum int | JStr string | JRef nat

fun truthy :: "jsval \<Rightarrow> bool" where
  "truthy JUndefined = False"
| "truthy JNull = False"
| "truthy (JBool b) = b"
| "truthy (JNum n) = (n \<noteq> 0)"
| "truthy (JStr s) = (s \<noteq> [])"
| "truthy (JRef r) = True"

type_synonym jsobject = "(string \<times> jsval) list"

text \<open>\<^verbatim>\<open>contentToSave\<close> is an object, or \<^verbatim>\<open>null\<close>/\<^verbatim>\<open>undefined\<close>.\<close>

datatype payload = Nullish | Obj jsobject

text \<open>\<^verbatim>\<open>contentToSave?.postId\<close>: a missing field, or no object at all, reads \<^verbatim>\<open>undefined\<close>.\<close>

fun payload_postId :: "payload \<Rightarrow> jsval" where
  "payload_postId Nullish = JUndefined"
| "payload_postId (Obj props) =
     (case map_of props ''postId'' of None \<Rightarrow> JUndefined | Some v \<Rightarrow> v)"

text \<open>\<^verbatim>\<open>const { postId: _, ...contentForAPI } = contentToSave || {}\<close>\<close>

fun contentForAPI :: "payload \<Rightarrow> jsobject" where
  "contentForAPI Nullish = []"
| "contentForAPI (Obj props) = filter (\<lambda>(k, v). k \<noteq> ''postId'') props"

text \<open>
  The test of line 45: \<^verbatim>\<open>contentToSave?.postId && contentToSave.postId !== postId\<close>.
\<close>

definition postId_mismatch :: "jsval \<Rightarrow> payload \<Rightarrow> bool" where
  "postId_mismatch postId contentToSave =
     (truthy (payload_postId contentToSave) \<and> payload_postId contentToSave \<noteq> postId)"

subsection \<open>State of one hook instance\<close>

datatype save_status = Idle | Saving | Saved | Error | Retrying

text \<open>
  An \<^verbatim>\<open>async\<close> call of \<^verbatim>\<open>saveContent\<close> that has not finished is suspended at one of
  its two \<^verbatim>\<open>await\<close>s; a retry is a timer that will call \<^verbatim>\<open>saveContent\<close> again.
  Each carries the \<^verbatim>\<open>postId\<close> its closure captured and its \<^verbatim>\<open>contentToSave\<close>.
  \<^item> \<open>Backoff due postId c\<close>: waiting at line 62 for the backoff timer, due at \<open>due\<close>;
  \<^item> \<open>InFlight postId c\<close>: waiting at line 69 for the answer of \<^verbatim>\<open>postsAPI.update\<close>;
  \<^item> \<open>RetryTimer due postId c\<close>: the \<^verbatim>\<open>setTimeout\<close> of line 91.
\<close>

datatype task =
    Backoff nat jsval payload
  | InFlight jsval payload
  | RetryTimer nat jsval payload

text \<open>
  One call of \<^verbatim>\<open>postsAPI.update(postId, contentForAPI)\<close>: when it was made, its two
  arguments, and (for stating properties only) the \<^verbatim>\<open>contentToSave\<close> it was made for.
\<close>

record api_call =
  call_time :: nat
  call_postId :: jsval
  call_body :: jsobject
  call_request :: payload

text \<open>
  The \<^verbatim>\<open>postId\<close> argument of the latest render (the post that is open now), the React
  state (\<open>status\<close>, \<open>error\<close>, \<open>lastSaved\<close>), the four refs, the clock in
  milliseconds, the suspended calls and timers, and the log of calls of
  \<^verbatim>\<open>postsAPI.update\<close>, oldest first. The refs are shared by the closures of all
  renders. \<^verbatim>\<open>setStatus\<close> and \<^verbatim>\<open>setError\<close> are applied wherever the source calls
  them, also after the unmount.
\<close>

record autosave =
  currentPostId :: jsval
  status :: save_status
  error :: jsval
  lastSaved :: "nat option"
  retryCount :: nat
  isMounted :: bool
  saveQueue :: "payload list"
  isSaving :: bool
  now :: nat
  pending :: "task list"
  apiCalls :: "api_call list"

definition maxRetries :: nat where
  "maxRetries = 3"

text \<open>The hook as first rendered (lines 21 to 29), with the clock at \<open>0\<close>.\<close>

definition useAutoSave :: "jsval \<Rightarrow> autosave" where
  "useAutoSave postId =
     \<lparr>currentPostId = postId, status = Idle, error = JNull, lastSaved = None,
      retryCount = 0, isMounted = True, saveQueue = [], isSaving = False,
      now = 0, pending = [], apiCalls = []\<rparr>"

subsection \<open>\<^verbatim>\<open>saveContent\<close>, piece by piece\<close>

text \<open>Lines 65 to 69: the call of the API; the function then waits for the answer.\<close>

definition callApi :: "jsval \<Rightarrow> payload \<Rightarrow> autosave \<Rightarrow> autosave" where
  "callApi postId contentToSave s =
     s\<lparr>apiCalls := apiCalls s @
          [\<lparr>call_time = now s, call_postId = postId,
            call_body = contentForAPI contentToSave, call_request = contentToSave\<rparr>],
       pending := pending s @ [InFlight postId contentToSave]\<rparr>"

text \<open>
  Lines 37 to 69, up to the first \<^verbatim>\<open>await\<close>: queue the content when there is no
  \<^verbatim>\<open>postId\<close> or a save is running; return when the content names another post;
  otherwise take \<^verbatim>\<open>isSaving\<close>, and either wait \<open>2 ^ retryCount\<close> seconds (when
  \<open>retryCount > 0\<close>) or call the API at once. In every state the hook can reach,
  \<open>retryCount\<close> is at most \<open>maxRetries\<close> (lemma \<open>run_retryCount_bound\<close>), so the
  delays of the hook are at most 8000 ms, within the 32-bit range of \<^verbatim>\<open>setTimeout\<close>.
\<close>

definition saveContent :: "jsval \<Rightarrow> payload \<Rightarrow> autosave \<Rightarrow> autosave" where
  "saveContent postId contentToSave s =
     (if \<not> truthy postId \<or> isSaving s then
        s\<lparr>saveQueue := saveQueue s @ [contentToSave]\<rparr>
      else if postId_mismatch postId contentToSave then s
      else
        let s1 = s\<lparr>isSaving := True, status := Saving, error := JNull\<rparr>;
            backoffDelay = 2 ^ retryCount s1 * 1000
        in if retryCount s1 > 0
           then s1\<lparr>pending := pending s1 @ [Backoff (now s1 + backoffDelay) postId contentToSave]\<rparr>
           else callApi postId contentToSave s1)"

text \<open>
  Lines 100 to 109, the \<^verbatim>\<open>finally\<close> block: release \<^verbatim>\<open>isSaving\<close>; when the queue is not
  empty, \<^verbatim>\<open>pop()\<close> its last element, empty it and call \<^verbatim>\<open>saveContent\<close> (the same
  closure, hence the same \<^verbatim>\<open>postId\<close>) with that element.
\<close>

definition finally_block :: "jsval \<Rightarrow> autosave \<Rightarrow> autosave" where
  "finally_block postId s =
     (let s1 = s\<lparr>isSaving := False\<rparr>
      in if length (saveQueue s1) > 0
         then let nextContent = last (saveQueue s1);
                  s2 = s1\<lparr>saveQueue := []\<rparr>
              in saveContent postId nextContent s2
         else s1)"

text \<open>Lines 70 to 77, then \<^verbatim>\<open>finally\<close>: the API call resolved.\<close>

definition on_success :: "jsval \<Rightarrow> autosave \<Rightarrow> autosave" where
  "on_success postId s =
     finally_block postId
       (if isMounted s
        then s\<lparr>status := Saved, lastSaved := Some (now s), retryCount := 0\<rparr>
        else s)"

text \<open>
  Lines 78 to 99, then \<^verbatim>\<open>finally\<close>: the API call rejected with an error whose
  \<^verbatim>\<open>response?.data?.detail\<close> is \<open>detail\<close> (\<open>JUndefined\<close> when there is none). The
  rejection is an \<^verbatim>\<open>Error\<close> object, as axios gives, so the logging of lines 79 to 84
  does not throw.
\<close>

definition on_failure :: "jsval \<Rightarrow> payload \<Rightarrow> jsval \<Rightarrow> autosave \<Rightarrow> autosave" where
  "on_failure postId contentToSave detail s =
     finally_block postId
       (if retryCount s < maxRetries then
          let s1 = s\<lparr>retryCount := retryCount s + 1\<rparr>
          in if isMounted s1
             then s1\<lparr>status := Retrying,
                     pending := pending s1 @ [RetryTimer (now s1 + 1000) postId contentToSave]\<rparr>
             else s1
        else
          (if isMounted s
           then s\<lparr>status := Error,
                   error := (if truthy detail then detail else JStr ''Failed to save'')\<rparr>
           else s)\<lparr>retryCount := 0\<rparr>)"

text \<open>
  Lines 113 to 120 (the effect that runs when the debounced content changes) and lines 136
  to 140 (\<^verbatim>\<open>saveNow\<close>): both call the \<^verbatim>\<open>saveContent\<close> of the latest render, bound to
  the current \<^verbatim>\<open>postId\<close>, and only when the content and the \<^verbatim>\<open>postId\<close> are truthy.
\<close>

definition trigger_save :: "payload \<Rightarrow> autosave \<Rightarrow> autosave" where
  "trigger_save content s =
     (if content \<noteq> Nullish \<and> truthy (currentPostId s)
      then saveContent (currentPostId s) content s
      else s)"

text \<open>
  A render with another \<^verbatim>\<open>postId\<close>. \<^verbatim>\<open>useCallback\<close> makes a new \<^verbatim>\<open>saveContent\<close>
  bound to it; the effect of lines 113 to 120 runs again with whatever the debounced
  content is at that moment (\<^verbatim>\<open>useDebounce\<close> is outside this model, so the value is
  given); then the effect of lines 123 to 126 empties the queue.
\<close>

definition postId_changed :: "jsval \<Rightarrow> payload \<Rightarrow> autosave \<Rightarrow> autosave" where
  "postId_changed postId debouncedContent s =
     (if postId = currentPostId s then s
      else (trigger_save debouncedContent (s\<lparr>currentPostId := postId\<rparr>))\<lparr>saveQueue := []\<rparr>)"

subsection \<open>The event loop\<close>

text \<open>
  Everything that can happen to a hook instance, one event at a time (the event loop is
  single-threaded):
  \<^item> \<open>Submit c\<close>: the debounced content became \<open>c\<close>, or \<^verbatim>\<open>saveNow\<close> was called
    with content \<open>c\<close>;
  \<^item> \<open>PostIdChanged postId c\<close>: the hook is rendered with another \<^verbatim>\<open>postId\<close>, the
    debounced content being \<open>c\<close>;
  \<^item> \<open>Unmount\<close>: the cleanup of line 131 runs;
  \<^item> \<open>Elapse d\<close>: \<open>d\<close> milliseconds pass;
  \<^item> \<open>TimerFires i\<close>: the \<open>i\<close>-th pending item is a timer that is due, and fires
    (a timer may fire late, never early);
  \<^item> \<open>ApiResolves i\<close>, \<open>ApiRejects i detail\<close>: the \<open>i\<close>-th pending item is an API call,
    and its answer arrives.
  An event that does not apply (no such item, a timer not yet due) changes nothing.
\<close>

datatype event =
    Submit payload
  | PostIdChanged jsval payload
  | Unmount
  | Elapse nat
  | TimerFires nat
  | ApiResolves nat
  | ApiRejects nat jsval

definition task_at :: "nat \<Rightarrow> autosave \<Rightarrow> task option" where
  "task_at i s = (if i < length (pending s) then Some (pending s ! i) else None)"

definition without_task :: "nat \<Rightarrow> autosave \<Rightarrow> autosave" where
  "without_task i s = s\<lparr>pending := take i (pending s) @ drop (Suc i) (pending s)\<rparr>"

fun step :: "event \<Rightarrow> autosave \<Rightarrow> autosave" where
  "step (Submit c) s = trigger_save c s"
| "step (PostIdChanged postId c) s = postId_changed postId c s"
| "step Unmount s = s\<lparr>isMounted := False\<rparr>"
| "step (Elapse d) s = s\<lparr>now := now s + d\<rparr>"
| "step (TimerFires i) s =
     (case task_at i s of
        Some (Backoff due postId c) \<Rightarrow>
          if due \<le> now s then callApi postId c (without_task i s) else s
      | Some (RetryTimer due postId c) \<Rightarrow>
          if due \<le> now s then saveContent postId c (without_task i s) else s
      | _ \<Rightarrow> s)"
| "step (ApiResolves i) s =
     (case task_at i s of
        Some (InFlight postId c) \<Rightarrow> on_success postId (without_task i s)
      | _ \<Rightarrow> s)"
| "step (ApiRejects i detail) s =
     (case task_at i s of
        Some (InFlight postId c) \<Rightarrow> on_failure postId c detail (without_task i s)
      | _ \<Rightarrow> s)"

fun run :: "event list \<Rightarrow> autosave \<Rightarrow> autosave" where
  "run [] s = s"
| "run (e # es) s = run es (step e s)"

text \<open>Which pending items are an execution of a request, and which of those an open API call.\<close>

fun executing :: "task \<Rightarrow> bool" where
  "executing (Backoff due postId c) = True"
| "executing (InFlight postId c) = True"
| "executing (RetryTimer due postId c) = False"

fun in_flight :: "task \<Rightarrow> bool" where
  "in_flight (InFlight postId c) = True"
| "in_flight _ = False"

text \<open>The \<^verbatim>\<open>postId\<close> a pending item is bound to, and the request it carries.\<close>

fun task_postId :: "task \<Rightarrow> jsval" where
  "task_postId (Backoff due postId c) = postId"
| "task_postId (InFlight postId c) = postId"
| "task_postId (RetryTimer due postId c) = postId"

fun task_request :: "task \<Rightarrow> payload" where
  "task_request (Backoff due postId c) = c"
| "task_request (InFlight postId c) = c"
| "task_request (RetryTimer due postId c) = c"

subsection \<open>Invariants and sample inputs\<close>

text \<open>
  \<open>exclusive\<close>: the flag \<^verbatim>\<open>isSaving\<close> is set exactly when one execution is suspended,
  and there is never more than one. \<open>guarded\<close>: every call made and every execution
  under way passed the test of line 45 against the \<^verbatim>\<open>postId\<close> it uses.
\<close>

definition exclusive :: "autosave \<Rightarrow> bool" where
  "exclusive s = (length (filter executing (pending s)) = (if isSaving s then 1 else 0))"

fun admitted :: "task \<Rightarrow> bool" where
  "admitted (Backoff due postId c) = (\<not> postId_mismatch postId c)"
| "admitted (InFlight postId c) = (\<not> postId_mismatch postId c)"
| "admitted (RetryTimer due postId c) = True"

definition guarded :: "autosave \<Rightarrow> bool" where
  "guarded s =
     ((\<forall>k \<in> set (apiCalls s). \<not> postId_mismatch (call_postId k) (call_request k))
      \<and> (\<forall>t \<in> set (pending s). admitted t))"

text \<open>
  The content object that \<^verbatim>\<open>EditorPage\<close> hands to the hook:
  \<^verbatim>\<open>{ postId: currentPost.id, title: ..., content: ... }\<close>, the content being the
  editor state, an object.
\<close>

definition page_content :: "string \<Rightarrow> string \<Rightarrow> payload" where
  "page_content post title =
     Obj [(''postId'', JStr post), (''title'', JStr title), (''content'', JRef 0)]"

text \<open>Two posts, and three successive edits of the first.\<close>

definition post1 :: jsval where
  "post1 = JStr ''p1''"

definition post2 :: jsval where
  "post2 = JStr ''p2''"

definition edit1 :: payload where
  "edit1 = page_content ''p1'' ''a''"

definition edit2 :: payload where
  "edit2 = page_content ''p1'' ''ab''"

definition edit3 :: payload where
  "edit3 = page_content ''p1'' ''abc''"

text \<open>
  One edit whose API call rejects at once; the retry timer fires when due, then the
  backoff timer; the second call rejects too, and the third resolves.
\<close>

definition fails_twice :: "event list" where
  "fails_twice =
     [Submit edit1, ApiRejects 0 JUndefined,
      Elapse 1000, TimerFires 0, Elapse 2000, TimerFires 0, ApiRejects 0 JUndefined,
      Elapse 1000, TimerFires 0, Elapse 4000, TimerFires 0, ApiResolves 0]"

text \<open>The same edit, its first call rejected, one second later: the retry timer fires.\<close>

definition one_second_after_failure :: "event list" where
  "one_second_after_failure =
     [Submit edit1, ApiRejects 0 JUndefined, Elapse 1000, TimerFires 0]"

text \<open>
  An edit of the first post fails once; the user opens the second post; the retry timer
  and then the backoff timer of the failed edit fire.
\<close>

definition retry_after_switch :: "event list" where
  "retry_after_switch =
     [Submit edit1, ApiRejects 0 JUndefined, PostIdChanged post2 Nullish,
      Elapse 1000, TimerFires 0, Elapse 2000, TimerFires 0]"

text \<open>
  Two edits that both always fail, the second submitted while the first call is open.
  Every answer arrives at once and every timer fires the moment it is due. The retry timer
  of each edit fires while the other edit is waiting for its backoff timer, so the retry
  is queued and runs when the other attempt has failed.
\<close>

definition overlapping_failures :: "event list" where
  "overlapping_failures =
     [Submit edit1, Submit edit2, ApiRejects 0 JUndefined,
      Elapse 1000, TimerFires 0, Elapse 1000, TimerFires 0, ApiRejects 0 JUndefined,
      Elapse 1000, TimerFires 0, Elapse 3000, TimerFires 0, ApiRejects 0 JUndefined,
      Elapse 1000, TimerFires 0, Elapse 7000, TimerFires 0, ApiRejects 0 JUndefined,
      ApiRejects 0 JUndefined,
      Elapse 1000, TimerFires 0, Elapse 2000, TimerFires 0, ApiRejects 0 JUndefined,
      Elapse 1000, TimerFires 0, Elapse 4000, TimerFires 0, ApiRejects 0 JUndefined,
      Elapse 1000, TimerFires 0, Elapse 8000, TimerFires 0, ApiRejects 0 JUndefined]"

text \<open>Two payloads that carry no \<^verbatim>\<open>postId\<close> field.\<close>

definition untagged1 :: payload where
  "untagged1 = Obj [(''title'', JStr ''x''), (''content'', JRef 1)]"

definition untagged2 :: payload where
  "untagged2 = Obj [(''title'', JStr ''xy''), (''content'', JRef 2)]"

text \<open>
  A save of the first post is under way; the second post is opened; two payloads without
  \<^verbatim>\<open>postId\<close> are submitted there; then the save of the first post succeeds.
\<close>

definition typed_under_second_post :: "event list" where
  "typed_under_second_post =
     [Submit edit1, PostIdChanged post2 Nullish, Submit untagged1, Submit untagged2,
      ApiResolves 0]"

section \<open>Properties of the debounce primitive\<close>

lemmas debounce_defs =
  debounced_def cancel_def host_turn_def setTimeout_def clearTimeout_def
  timer_callback_def setTimeout_delay_def debounce_def Let_def

lemma debounce_run_append:
  "debounce_run wait (es @ fs) s = debounce_run wait fs (debounce_run wait es s)"
  by (induction es arbitrary: s) simp_all

lemma setTimeout_delay_small: "wait < 2147483648 \<Longrightarrow> setTimeout_delay wait = wait"
  by (simp add: setTimeout_delay_def Let_def)

text \<open>
  While the debounced function is armed for \<open>bound\<close>, a host turn before \<open>bound\<close>
  runs nothing, and an invocation clears the one live timer and sets the next.
\<close>

lemma host_turn_armed:
  "armed bound s \<Longrightarrow> t < bound \<Longrightarrow> host_turn t s = s"
  by (auto simp: armed_def host_turn_def Let_def split: list.splits)

lemma debounced_armed:
  assumes "armed bound s" and "wait < 2147483648"
  shows "debounced wait t args s =
           s\<lparr>timers := [(nextTimer s, t + wait, args)], nextTimer := Suc (nextTimer s),
             timeoutId := Some (nextTimer s)\<rparr>"
  using assms
  by (auto simp: armed_def debounced_def setTimeout_def clearTimeout_def
      setTimeout_delay_small split: list.splits)

lemma burst_keeps_armed:
  assumes "wait < 2147483648"
    and "\<forall>e \<in> set burst. \<not> is_cancel e \<and> t0 \<le> event_time e \<and> event_time e < t0 + wait"
    and "armed (t0 + wait) s"
  shows "armed (t0 + wait) (debounce_run wait burst s)
       \<and> executions (debounce_run wait burst s) = executions s"
  using assms(2,3)
proof (induction burst arbitrary: s)
  case Nil
  then show ?case by simp
next
  case (Cons e es)
  from Cons.prems(1) have e: "\<not> is_cancel e" "t0 \<le> event_time e" "event_time e < t0 + wait"
    and rest: "\<forall>e \<in> set es. \<not> is_cancel e \<and> t0 \<le> event_time e \<and> event_time e < t0 + wait"
    by simp_all
  have "armed (t0 + wait) (debounce_step wait e s)
      \<and> executions (debounce_step wait e s) = executions s"
  proof (cases e)
    case (Invoke t args)
    with e Cons.prems(2) show ?thesis
      by (simp add: debounced_armed [OF Cons.prems(2) assms(1)] armed_def)
  next
    case (Cancel t)
    with e show ?thesis by simp
  next
    case (HostTurn t)
    with e Cons.prems(2) show ?thesis by (simp add: host_turn_armed)
  qed
  with Cons.IH [OF rest, of "debounce_step wait e s"] show ?case by simp
qed

lemma host_turn_idle: "timers s = [] \<Longrightarrow> host_turn t s = s"
  by (cases s) (simp add: host_turn_def)

lemma host_turns_idle:
  assumes "timers s = []" and "\<forall>e \<in> set quiet. is_host_turn e"
  shows "debounce_run wait quiet s = s"
  using assms
proof (induction quiet)
  case Nil
  then show ?case by simp
next
  case (Cons e es)
  then obtain t where "e = HostTurn t" by (cases e) simp_all
  with Cons show ?case by (simp add: host_turn_idle)
qed

lemma host_turns_early:
  assumes "armed bound s" and "\<forall>e \<in> set mid. is_host_turn e \<and> event_time e < bound"
  shows "debounce_run wait mid s = s"
  using assms
proof (induction mid)
  case Nil
  then show ?case by simp
next
  case (Cons e es)
  then obtain t where "e = HostTurn t" and "t < bound" by (cases e) simp_all
  with Cons show ?case by (simp add: host_turn_armed)
qed

lemma host_turns_fire_once:
  assumes "timers s = [(i, due, args)]" and "\<forall>e \<in> set quiet. is_host_turn e"
  shows "executions (debounce_run wait quiet s) =
           (if \<exists>T. HostTurn T \<in> set quiet \<and> due \<le> T then executions s @ [args]
            else executions s)"
  using assms
proof (induction quiet arbitrary: s)
  case Nil
  then show ?case by simp
next
  case (Cons e es)
  then obtain t where e: "e = HostTurn t" by (cases e) simp_all
  from Cons.prems(2) have rest: "\<forall>e \<in> set es. is_host_turn e" by simp
  show ?case
  proof (cases "due \<le> t")
    case True
    with Cons.prems(1) have fired: "host_turn t s =
        s\<lparr>timers := [], executions := executions s @ [args], timeoutId := None\<rparr>"
      by (simp add: host_turn_def timer_callback_def)
    have "debounce_run wait es (host_turn t s) = host_turn t s"
      by (rule host_turns_idle) (simp_all add: fired rest)
    with True e fired show ?thesis by auto
  next
    case False
    with Cons.prems(1) have "host_turn t s = s"
      by (simp add: host_turn_def)
    with Cons.IH [OF Cons.prems(1) rest] False e show ?thesis by auto
  qed
qed

lemma host_turns_fire_idle:
  assumes "timers s = [(i, due, args)]" and "\<forall>e \<in> set quiet. is_host_turn e"
    and "\<exists>T. HostTurn T \<in> set quiet \<and> due \<le> T"
  shows "timeoutId (debounce_run wait quiet s) = None"
  using assms
proof (induction quiet arbitrary: s)
  case Nil
  then show ?case by simp
next
  case (Cons e es)
  then obtain t where e: "e = HostTurn t" by (cases e) simp_all
  from Cons.prems(2) have rest: "\<forall>e \<in> set es. is_host_turn e" by simp
  show ?case
  proof (cases "due \<le> t")
    case True
    with Cons.prems(1) have fired: "host_turn t s =
        s\<lparr>timers := [], executions := executions s @ [args], timeoutId := None\<rparr>"
      by (simp add: host_turn_def timer_callback_def)
    have "debounce_run wait es (host_turn t s) = host_turn t s"
      by (rule host_turns_idle) (simp_all add: fired rest)
    with e fired show ?thesis by simp
  next
    case False
    with Cons.prems(1) have same: "host_turn t s = s"
      by (simp add: host_turn_def)
    from False Cons.prems(3) e have "\<exists>T. HostTurn T \<in> set es \<and> due \<le> T" by auto
    from Cons.IH [OF Cons.prems(1) rest this] same e show ?thesis by simp
  qed
qed

lemma armed_fresh: "armed bound debounce"
  by (simp add: armed_def debounce_def)

lemma burst_then_invoke:
  assumes "wait < 2147483648"
    and "\<forall>e \<in> set burst. \<not> is_cancel e \<and> t0 \<le> event_time e \<and> event_time e \<le> t"
    and "t0 \<le> t" and "t < t0 + wait"
  shows "\<exists>i. timers (debounce_run wait (burst @ [Invoke t args]) debounce) = [(i, t + wait, args)]
           \<and> timeoutId (debounce_run wait (burst @ [Invoke t args]) debounce) = Some i
           \<and> executions (debounce_run wait (burst @ [Invoke t args]) debounce) = []"
proof -
  let ?s = "debounce_run wait burst (debounce :: 'a debounce_state)"
  from assms(2,4) have "\<forall>e \<in> set burst. \<not> is_cancel e \<and> t0 \<le> event_time e
      \<and> event_time e < t0 + wait"
    by fastforce
  from burst_keeps_armed [OF assms(1) this armed_fresh]
  have a: "armed (t0 + wait) ?s" and x: "executions ?s = []"
    by (simp_all add: debounce_def)
  show ?thesis
    by (simp add: debounce_run_append debounced_armed [OF a assms(1)] x)
qed

text \<open>
  Two invocations in one turn of the program, with a delay of zero: the second clears the
  timer of the first, and only the second runs.
\<close>

lemma same_turn_invocations:
  "executions (debounce_run 0 [Invoke 0 ''a'', Invoke 0 ''b'', HostTurn 0] debounce) = [''b'']"
  by (simp add: debounce_defs)

text \<open>
  C8 as stated fails for a delay of \<open>2^31\<close> ms: the delay overflows the 32-bit
  integer of \<^verbatim>\<open>setTimeout\<close>, each timer is due at once, and two invocations 300 ms
  apart (a window far shorter than the delay) are both executed.
\<close>

theorem delay_overflow_executes_twice:
  "executions (debounce_run 2147483648
      [Invoke 0 ''a'', HostTurn 100, Invoke 300 ''ab'', HostTurn 400] debounce)
     = [''a'', ''ab'']"
  by (simp add: debounce_defs)

text \<open>
  C8, as amended (debounce collapse, for delays below \<open>2^31\<close> ms). Take any delay
  \<open>wait < 2^31\<close> and \<open>N \<ge> 1\<close> invocations of a fresh debounced function: those in
  \<open>burst\<close>, in any order and mixed with any host turns, and a last one at time \<open>t\<close>,
  all of them from time \<open>t0\<close> on and \<open>t\<close> less than \<open>wait\<close> after \<open>t0\<close>. After
  the last invocation the host takes any number of turns (\<open>quiet\<close>). Then the callback
  has run exactly once, with the arguments of the last invocation, if one of these turns
  came \<open>wait\<close> or more after the last invocation, however many turns follow; and it has
  not run at all otherwise.
\<close>

theorem debounce_collapse:
  assumes "wait < 2147483648"
    and "\<forall>e \<in> set burst. \<not> is_cancel e \<and> t0 \<le> event_time e \<and> event_time e \<le> t"
    and "t0 \<le> t" and "t < t0 + wait"
    and "\<forall>e \<in> set quiet. is_host_turn e"
  shows "executions (debounce_run wait (burst @ Invoke t args # quiet) debounce) =
           (if \<exists>T. HostTurn T \<in> set quiet \<and> t + wait \<le> T then [args] else [])"
proof -
  from burst_then_invoke [OF assms(1-4), of args]
  obtain i where s: "timers (debounce_run wait (burst @ [Invoke t args]) debounce)
        = [(i, t + wait, args)]"
    and x: "executions (debounce_run wait (burst @ [Invoke t args]) debounce) = []"
    by blast
  have "debounce_run wait (burst @ Invoke t args # quiet) debounce =
        debounce_run wait quiet (debounce_run wait (burst @ [Invoke t args]) debounce)"
    by (simp add: debounce_run_append)
  with host_turns_fire_once [OF s assms(5), of wait] x show ?thesis by simp
qed

text \<open>C8 (amended) for three keystrokes and a delay of two seconds.\<close>

theorem debounce_collapse_witness:
  "executions (debounce_run 2000
     ([Invoke 0 ''a'', HostTurn 100, Invoke 300 ''ab''] @ Invoke 600 ''abc'' #
      [HostTurn 1000, HostTurn 2600, HostTurn 9000]) debounce) = [''abc'']
   \<and> executions (debounce_run 2000
     ([Invoke 0 ''a'', HostTurn 100, Invoke 300 ''ab''] @ Invoke 600 ''abc'' #
      [HostTurn 1000, HostTurn 2599]) debounce) = []"
  using debounce_collapse [of 2000 "[Invoke 0 ''a'', HostTurn 100, Invoke 300 ''ab'']" 0 600
      "[HostTurn 1000, HostTurn 2600, HostTurn 9000]" "''abc''"]
    debounce_collapse [of 2000 "[Invoke 0 ''a'', HostTurn 100, Invoke 300 ''ab'']" 0 600
      "[HostTurn 1000, HostTurn 2599]" "''abc''"]
  by auto

text \<open>
  C9 as stated fails for a delay of \<open>2^31\<close> ms: the timer is due at once, the host
  runs it, and a \<^verbatim>\<open>cancel()\<close> 1.5 seconds after the invocation, long before the delay
  has elapsed, comes after the execution.
\<close>

theorem delay_overflow_defeats_cancel:
  "executions (debounce_run 2147483648
      [Invoke 0 ''a'', HostTurn 100, Cancel 1500, HostTurn 2000] debounce) = [''a'']"
  by (simp add: debounce_defs)

text \<open>
  C9, as amended (debounce cancel, for delays below \<open>2^31\<close> ms). After a burst of
  invocations as in C8, the last at time \<open>t\<close>, \<^verbatim>\<open>cancel()\<close> called at a time \<open>tc\<close>
  before \<open>wait\<close> has passed since \<open>t\<close> (whatever host turns came between, up to
  \<open>tc\<close>) leaves the callback never run, whatever host turns follow. For every delay and
  in every state, \<^verbatim>\<open>cancel()\<close> twice is \<^verbatim>\<open>cancel()\<close> once, and with
  \<^verbatim>\<open>timeoutId\<close> \<^verbatim>\<open>null\<close> it changes nothing. Nothing is pending either once the
  callback has run: after such a burst and a host turn that ran the callback,
  \<^verbatim>\<open>cancel()\<close> changes nothing.
\<close>

theorem debounce_cancel:
  "(wait < 2147483648
      \<and> (\<forall>e \<in> set burst. \<not> is_cancel e \<and> t0 \<le> event_time e \<and> event_time e \<le> t)
      \<and> t0 \<le> t \<and> t < t0 + wait
      \<and> (\<forall>e \<in> set mid. is_host_turn e \<and> event_time e \<le> tc) \<and> tc < t + wait
      \<and> (\<forall>e \<in> set quiet. is_host_turn e) \<longrightarrow>
      executions (debounce_run wait (burst @ Invoke t args # mid @ Cancel tc # quiet) debounce)
        = [])
   \<and> cancel (cancel s) = cancel s
   \<and> (timeoutId s = None \<longrightarrow> cancel s = s)
   \<and> (wait < 2147483648
      \<and> (\<forall>e \<in> set burst. \<not> is_cancel e \<and> t0 \<le> event_time e \<and> event_time e \<le> t)
      \<and> t0 \<le> t \<and> t < t0 + wait
      \<and> (\<forall>e \<in> set quiet. is_host_turn e)
      \<and> (\<exists>T. HostTurn T \<in> set quiet \<and> t + wait \<le> T) \<longrightarrow>
      cancel (debounce_run wait (burst @ Invoke t args # quiet) debounce)
        = debounce_run wait (burst @ Invoke t args # quiet) debounce)"
proof (intro conjI impI)
  assume a: "wait < 2147483648
      \<and> (\<forall>e \<in> set burst. \<not> is_cancel e \<and> t0 \<le> event_time e \<and> event_time e \<le> t)
      \<and> t0 \<le> t \<and> t < t0 + wait
      \<and> (\<forall>e \<in> set mid. is_host_turn e \<and> event_time e \<le> tc) \<and> tc < t + wait
      \<and> (\<forall>e \<in> set quiet. is_host_turn e)"
  let ?s1 = "debounce_run wait (burst @ [Invoke t args]) (debounce :: 'a debounce_state)"
  from a have w: "wait < 2147483648" by simp
  from a burst_then_invoke [of wait burst t0 t args]
  obtain i where s: "timers ?s1 = [(i, t + wait, args)]" and v: "timeoutId ?s1 = Some i"
    and x: "executions ?s1 = []"
    by blast
  from s v have armed1: "armed (t + wait) ?s1" by (simp add: armed_def)
  from a have mid: "\<forall>e \<in> set mid. is_host_turn e \<and> event_time e < t + wait"
    by fastforce
  have keep: "debounce_run wait mid ?s1 = ?s1"
    by (rule host_turns_early [OF armed1 mid])
  have cancelled: "timers (cancel ?s1) = []" "executions (cancel ?s1) = []"
    using s v x by (simp_all add: cancel_def clearTimeout_def)
  from a have q: "\<forall>e \<in> set quiet. is_host_turn e" by simp
  have "debounce_run wait (burst @ Invoke t args # mid @ Cancel tc # quiet) debounce =
        debounce_run wait quiet (cancel (debounce_run wait mid ?s1))"
    by (simp add: debounce_run_append)
  also have "\<dots> = cancel ?s1"
    unfolding keep by (rule host_turns_idle [OF cancelled(1) q])
  finally show "executions (debounce_run wait
      (burst @ Invoke t args # mid @ Cancel tc # quiet) debounce) = []"
    using cancelled(2) by simp
next
  show "cancel (cancel s) = cancel s"
    by (simp add: cancel_def clearTimeout_def split: option.splits)
next
  assume "timeoutId s = None"
  then show "cancel s = s" by (simp add: cancel_def)
next
  assume a: "wait < 2147483648
      \<and> (\<forall>e \<in> set burst. \<not> is_cancel e \<and> t0 \<le> event_time e \<and> event_time e \<le> t)
      \<and> t0 \<le> t \<and> t < t0 + wait
      \<and> (\<forall>e \<in> set quiet. is_host_turn e)
      \<and> (\<exists>T. HostTurn T \<in> set quiet \<and> t + wait \<le> T)"
  let ?s1 = "debounce_run wait (burst @ [Invoke t args]) (debounce :: 'a debounce_state)"
  from a burst_then_invoke [of wait burst t0 t args]
  obtain i where s: "timers ?s1 = [(i, t + wait, args)]"
    by blast
  from a have q: "\<forall>e \<in> set quiet. is_host_turn e"
    and f: "\<exists>T. HostTurn T \<in> set quiet \<and> t + wait \<le> T" by simp_all
  have "debounce_run wait (burst @ Invoke t args # quiet) debounce =
        debounce_run wait quiet ?s1"
    by (simp add: debounce_run_append)
  with host_turns_fire_idle [OF s q f, of wait]
  have "timeoutId (debounce_run wait (burst @ Invoke t args # quiet) debounce) = None"
    by simp
  then show "cancel (debounce_run wait (burst @ Invoke t args # quiet) debounce)
        = debounce_run wait (burst @ Invoke t args # quiet) debounce"
    by (simp add: cancel_def)
qed

text \<open>C9 (amended) for two keystrokes cancelled after 1.5 seconds.\<close>

theorem debounce_cancel_witness:
  "executions (debounce_run 2000
     ([Invoke 0 ''a'', HostTurn 100] @ Invoke 300 ''ab'' # [HostTurn 1000] @ Cancel 1500 #
      [HostTurn 2300, HostTurn 9000]) debounce) = []
   \<and> timeoutId (debounce :: string debounce_state) = None
   \<and> cancel (debounce :: string debounce_state) = debounce
   \<and> executions (cancel (debounce_run 2000
     ([Invoke 0 ''a'', HostTurn 100] @ Invoke 300 ''ab'' # [HostTurn 2300, HostTurn 9000])
     debounce)) = [''ab'']"
  using debounce_cancel [of 2000 "[Invoke 0 ''a'', HostTurn 100]" 0 300 "[HostTurn 1000]" 1500
      "[HostTurn 2300, HostTurn 9000]" "''ab''" "debounce :: string debounce_state"]
  by (auto simp: debounce_defs)

section \<open>Properties of the auto-save hook\<close>

lemmas hook_defs =
  trigger_save_def postId_changed_def
  saveContent_def callApi_def finally_block_def on_success_def on_failure_def
  task_at_def without_task_def maxRetries_def Let_def

lemmas sample_defs =
  post1_def post2_def edit1_def edit2_def edit3_def page_content_def postId_mismatch_def
  useAutoSave_def

subsection \<open>Runs, and removing one pending item\<close>

lemma run_append: "run (es @ fs) s = run fs (run es s)"
  by (induction es arbitrary: s) simp_all

lemma filter_without_nth:
  "i < length xs \<Longrightarrow>
     length (filter P (take i xs @ drop (Suc i) xs)) + (if P (xs ! i) then 1 else 0)
       = length (filter P xs)"
proof -
  assume "i < length xs"
  then have "xs = take i xs @ xs ! i # drop (Suc i) xs"
    by (rule id_take_nth_drop)
  then have "length (filter P xs) = length (filter P (take i xs @ xs ! i # drop (Suc i) xs))"
    by simp
  then show ?thesis by simp
qed

lemma set_without_nth: "set (take i xs @ drop (Suc i) xs) \<subseteq> set xs"
  using set_take_subset [of i xs] set_drop_subset [of "Suc i" xs] by auto

subsection \<open>Every event keeps \<open>exclusive\<close>\<close>

lemma saveContent_exclusive: "exclusive s \<Longrightarrow> exclusive (saveContent postId c s)"
  by (auto simp: exclusive_def saveContent_def callApi_def Let_def split: if_splits)

lemma trigger_save_exclusive: "exclusive s \<Longrightarrow> exclusive (trigger_save c s)"
  by (simp add: trigger_save_def saveContent_exclusive)

lemma postId_changed_exclusive:
  assumes "exclusive s"
  shows "exclusive (postId_changed postId c s)"
proof -
  from assms have "exclusive (s\<lparr>currentPostId := postId\<rparr>)"
    by (simp add: exclusive_def)
  then have "exclusive (trigger_save c (s\<lparr>currentPostId := postId\<rparr>))"
    by (rule trigger_save_exclusive)
  then have "exclusive ((trigger_save c (s\<lparr>currentPostId := postId\<rparr>))\<lparr>saveQueue := []\<rparr>)"
    by (simp add: exclusive_def)
  with assms show ?thesis by (simp add: postId_changed_def)
qed

lemma finally_block_exclusive:
  assumes "filter executing (pending s) = []"
  shows "exclusive (finally_block postId s)"
proof -
  from assms have released: "exclusive (s\<lparr>isSaving := False\<rparr>)"
    by (simp add: exclusive_def)
  from assms have "exclusive (s\<lparr>isSaving := False\<rparr>\<lparr>saveQueue := []\<rparr>)"
    by (simp add: exclusive_def)
  then have "exclusive (saveContent postId c (s\<lparr>isSaving := False\<rparr>\<lparr>saveQueue := []\<rparr>))" for c
    by (rule saveContent_exclusive)
  with released show ?thesis
    by (simp add: finally_block_def Let_def)
qed

lemma on_success_exclusive:
  "filter executing (pending s) = [] \<Longrightarrow> exclusive (on_success postId s)"
  unfolding on_success_def by (rule finally_block_exclusive) simp

lemma on_failure_exclusive:
  "filter executing (pending s) = [] \<Longrightarrow> exclusive (on_failure postId c detail s)"
  unfolding on_failure_def by (rule finally_block_exclusive) (simp add: Let_def)

lemma without_executing:
  assumes "exclusive s" "i < length (pending s)" "executing (pending s ! i)"
  shows "filter executing (pending (without_task i s)) = []" "isSaving s"
proof -
  from filter_without_nth [OF assms(2), of executing] assms(3)
  have "length (filter executing (take i (pending s) @ drop (Suc i) (pending s))) + 1
          = length (filter executing (pending s))" by simp
  with assms(1) show "filter executing (pending (without_task i s)) = []" "isSaving s"
    by (auto simp: exclusive_def without_task_def split: if_splits)
qed

lemma without_timer:
  assumes "exclusive s" "i < length (pending s)" "\<not> executing (pending s ! i)"
  shows "exclusive (without_task i s)"
  using filter_without_nth [OF assms(2), of executing] assms(1,3)
  by (simp add: exclusive_def without_task_def)

lemma step_exclusive: "exclusive s \<Longrightarrow> exclusive (step e s)"
proof (cases e)
  case (Submit c)
  assume "exclusive s"
  with Submit show ?thesis by (simp add: trigger_save_exclusive)
next
  case (PostIdChanged postId c)
  assume "exclusive s"
  with PostIdChanged show ?thesis by (simp add: postId_changed_exclusive)
next
  case (TimerFires i)
  assume ex: "exclusive s"
  show ?thesis
  proof (cases "task_at i s")
    case None
    with TimerFires ex show ?thesis by simp
  next
    case (Some t)
    then have i: "i < length (pending s)" and t: "pending s ! i = t"
      by (auto simp: task_at_def split: if_splits)
    show ?thesis
    proof (cases t)
      case (Backoff due postId c)
      with t have "executing (pending s ! i)" by simp
      from without_executing [OF ex i this]
      have "exclusive (callApi postId c (without_task i s))"
        by (simp add: exclusive_def callApi_def without_task_def)
      with TimerFires Some Backoff ex show ?thesis by simp
    next
      case (InFlight postId c)
      with TimerFires Some ex show ?thesis by simp
    next
      case (RetryTimer due postId c)
      with t have "\<not> executing (pending s ! i)" by simp
      from without_timer [OF ex i this]
      have "exclusive (saveContent postId c (without_task i s))"
        by (rule saveContent_exclusive)
      with TimerFires Some RetryTimer ex show ?thesis by simp
    qed
  qed
next
  case (ApiResolves i)
  assume ex: "exclusive s"
  show ?thesis
  proof (cases "task_at i s")
    case None
    with ApiResolves ex show ?thesis by simp
  next
    case (Some t)
    then have i: "i < length (pending s)" and t: "pending s ! i = t"
      by (auto simp: task_at_def split: if_splits)
    show ?thesis
    proof (cases t)
      case (InFlight postId c)
      with t have "executing (pending s ! i)" by simp
      from without_executing(1) [OF ex i this]
      have "exclusive (on_success postId (without_task i s))"
        by (rule on_success_exclusive)
      with ApiResolves Some InFlight show ?thesis by simp
    qed (use ApiResolves Some ex in simp_all)
  qed
next
  case (ApiRejects i detail)
  assume ex: "exclusive s"
  show ?thesis
  proof (cases "task_at i s")
    case None
    with ApiRejects ex show ?thesis by simp
  next
    case (Some t)
    then have i: "i < length (pending s)" and t: "pending s ! i = t"
      by (auto simp: task_at_def split: if_splits)
    show ?thesis
    proof (cases t)
      case (InFlight postId c)
      with t have "executing (pending s ! i)" by simp
      from without_executing(1) [OF ex i this]
      have "exclusive (on_failure postId c detail (without_task i s))"
        by (rule on_failure_exclusive)
      with ApiRejects Some InFlight show ?thesis by simp
    qed (use ApiRejects Some ex in simp_all)
  qed
qed (simp_all add: exclusive_def)

lemma run_exclusive: "exclusive s \<Longrightarrow> exclusive (run es s)"
  by (induction es arbitrary: s) (simp_all add: step_exclusive)

lemma useAutoSave_exclusive: "exclusive (useAutoSave postId)"
  by (simp add: exclusive_def useAutoSave_def)

lemma in_flight_executing: "in_flight t \<Longrightarrow> executing t"
  by (cases t) simp_all

lemma in_flight_le_executing:
  "length (filter in_flight ts) \<le> length (filter executing ts)"
  by (induction ts) (auto dest: in_flight_executing)

subsection \<open>Every event keeps \<open>guarded\<close>\<close>

lemma saveContent_guarded: "guarded s \<Longrightarrow> guarded (saveContent postId c s)"
  by (auto simp: guarded_def saveContent_def callApi_def Let_def)

lemma trigger_save_guarded: "guarded s \<Longrightarrow> guarded (trigger_save c s)"
  by (simp add: trigger_save_def saveContent_guarded)

lemma postId_changed_guarded:
  assumes "guarded s"
  shows "guarded (postId_changed postId c s)"
proof -
  from assms have "guarded (s\<lparr>currentPostId := postId\<rparr>)"
    by (simp add: guarded_def)
  then have "guarded (trigger_save c (s\<lparr>currentPostId := postId\<rparr>))"
    by (rule trigger_save_guarded)
  then have "guarded ((trigger_save c (s\<lparr>currentPostId := postId\<rparr>))\<lparr>saveQueue := []\<rparr>)"
    by (simp add: guarded_def)
  with assms show ?thesis by (simp add: postId_changed_def)
qed

lemma finally_block_guarded:
  assumes "guarded s"
  shows "guarded (finally_block postId s)"
proof -
  from assms have released: "guarded (s\<lparr>isSaving := False\<rparr>)"
    by (simp add: guarded_def)
  from assms have "guarded (s\<lparr>isSaving := False\<rparr>\<lparr>saveQueue := []\<rparr>)"
    by (simp add: guarded_def)
  then have "guarded (saveContent postId c (s\<lparr>isSaving := False\<rparr>\<lparr>saveQueue := []\<rparr>))" for c
    by (rule saveContent_guarded)
  with released show ?thesis
    by (simp add: finally_block_def Let_def)
qed

lemma without_task_guarded: "guarded s \<Longrightarrow> guarded (without_task i s)"
  using set_without_nth [of i "pending s"] by (auto simp: guarded_def without_task_def)

lemma on_success_guarded: "guarded s \<Longrightarrow> guarded (on_success postId s)"
  unfolding on_success_def by (rule finally_block_guarded) (simp add: guarded_def)

lemma on_failure_guarded: "guarded s \<Longrightarrow> guarded (on_failure postId c detail s)"
  unfolding on_failure_def by (rule finally_block_guarded) (simp add: guarded_def Let_def)

lemma task_at_admitted: "guarded s \<Longrightarrow> task_at i s = Some t \<Longrightarrow> admitted t"
  by (auto simp: guarded_def task_at_def split: if_splits)

lemma callApi_guarded:
  "guarded s \<Longrightarrow> \<not> postId_mismatch postId c \<Longrightarrow> guarded (callApi postId c s)"
  by (auto simp: guarded_def callApi_def)

lemma step_guarded: "guarded s \<Longrightarrow> guarded (step e s)"
proof (cases e)
  case (Submit c)
  assume "guarded s"
  with Submit show ?thesis by (simp add: trigger_save_guarded)
next
  case (PostIdChanged postId c)
  assume "guarded s"
  with PostIdChanged show ?thesis by (simp add: postId_changed_guarded)
next
  case (TimerFires i)
  assume g: "guarded s"
  show ?thesis
  proof (cases "task_at i s")
    case None
    with TimerFires g show ?thesis by simp
  next
    case (Some t)
    from task_at_admitted [OF g Some] have adm: "admitted t" .
    from g have g': "guarded (without_task i s)" by (rule without_task_guarded)
    show ?thesis
    proof (cases t)
      case (Backoff due postId c)
      with adm g' have "guarded (callApi postId c (without_task i s))"
        by (simp add: callApi_guarded)
      with TimerFires Some Backoff g show ?thesis by simp
    next
      case (InFlight postId c)
      with TimerFires Some g show ?thesis by simp
    next
      case (RetryTimer due postId c)
      from g' have "guarded (saveContent postId c (without_task i s))"
        by (rule saveContent_guarded)
      with TimerFires Some RetryTimer g show ?thesis by simp
    qed
  qed
next
  case (ApiResolves i)
  assume g: "guarded s"
  then have "guarded (without_task i s)" by (rule without_task_guarded)
  then have "\<And>postId. guarded (on_success postId (without_task i s))"
    by (rule on_success_guarded)
  with ApiResolves g show ?thesis
    by (simp split: option.splits task.splits)
next
  case (ApiRejects i detail)
  assume g: "guarded s"
  then have "guarded (without_task i s)" by (rule without_task_guarded)
  then have "\<And>postId c. guarded (on_failure postId c detail (without_task i s))"
    by (rule on_failure_guarded)
  with ApiRejects g show ?thesis
    by (simp split: option.splits task.splits)
qed (simp_all add: guarded_def)

lemma run_guarded: "guarded s \<Longrightarrow> guarded (run es s)"
  by (induction es arbitrary: s) (simp_all add: step_guarded)

lemma useAutoSave_guarded: "guarded (useAutoSave postId)"
  by (simp add: guarded_def useAutoSave_def)

subsection \<open>Small facts about the pieces\<close>

lemma submits_while_saving:
  assumes "isSaving s" and "truthy (currentPostId s)" and "Nullish \<notin> set cs"
  shows "run (map Submit cs) s = s\<lparr>saveQueue := saveQueue s @ cs\<rparr>"
  using assms
proof (induction cs arbitrary: s)
  case Nil
  then show ?case by simp
next
  case (Cons c cs)
  from Cons.prems have "step (Submit c) s = s\<lparr>saveQueue := saveQueue s @ [c]\<rparr>"
    by (auto simp: trigger_save_def saveContent_def)
  moreover from Cons.prems have "isSaving (s\<lparr>saveQueue := saveQueue s @ [c]\<rparr>)"
    and "truthy (currentPostId (s\<lparr>saveQueue := saveQueue s @ [c]\<rparr>))" by simp_all
  moreover from Cons.prems have "Nullish \<notin> set cs" by simp
  ultimately show ?case using Cons.IH [of "s\<lparr>saveQueue := saveQueue s @ [c]\<rparr>"] by simp
qed

lemma saveContent_retryCount: "retryCount (saveContent postId c s) = retryCount s"
  by (simp add: saveContent_def callApi_def Let_def)

lemma finally_block_retryCount: "retryCount (finally_block postId s) = retryCount s"
  by (simp add: finally_block_def Let_def saveContent_retryCount)

lemma trigger_save_retryCount: "retryCount (trigger_save c s) = retryCount s"
  by (simp add: trigger_save_def saveContent_retryCount)

lemma postId_changed_retryCount: "retryCount (postId_changed postId c s) = retryCount s"
  by (simp add: postId_changed_def trigger_save_retryCount)

lemma contentForAPI_no_postId: "''postId'' \<notin> fst ` set (contentForAPI c)"
  by (cases c) auto

text \<open>The retry count never exceeds \<open>maxRetries\<close>.\<close>

lemma step_retryCount_bound:
  "retryCount s \<le> maxRetries \<Longrightarrow> retryCount (step e s) \<le> maxRetries"
  by (cases e)
    (auto simp: trigger_save_retryCount postId_changed_retryCount saveContent_retryCount
      finally_block_retryCount on_success_def on_failure_def callApi_def without_task_def
      Let_def split: option.splits task.splits)

lemma run_retryCount_bound:
  "retryCount s \<le> maxRetries \<Longrightarrow> retryCount (run es s) \<le> maxRetries"
  by (induction es arbitrary: s) (simp_all add: step_retryCount_bound)

lemma useAutoSave_retryCount_bound:
  "retryCount (run es (useAutoSave postId)) \<le> maxRetries"
  by (rule run_retryCount_bound) (simp add: useAutoSave_def)

text \<open>Removing one key from an object leaves every other field as it was.\<close>

lemma map_of_without_key:
  "map_of (filter (\<lambda>(k, v). k \<noteq> key) props) field =
     (if field = key then None else map_of props field)"
  by (induction props) auto

lemma task_at_saveQueue: "task_at i (s\<lparr>saveQueue := q\<rparr>) = task_at i s"
  by (simp add: task_at_def)

text \<open>What \<^verbatim>\<open>saveContent\<close> does when no save is running.\<close>

lemma saveContent_drops:
  "\<not> isSaving b \<Longrightarrow> truthy postId \<Longrightarrow> postId_mismatch postId c \<Longrightarrow>
     saveContent postId c b = b"
  by (simp add: saveContent_def)

lemma saveContent_calls:
  "\<not> isSaving b \<Longrightarrow> truthy postId \<Longrightarrow> \<not> postId_mismatch postId c \<Longrightarrow>
   retryCount b = 0 \<Longrightarrow>
     saveContent postId c b =
       b\<lparr>isSaving := True, status := Saving, error := JNull,
         apiCalls := apiCalls b @
           [\<lparr>call_time = now b, call_postId = postId,
             call_body = contentForAPI c, call_request = c\<rparr>],
         pending := pending b @ [InFlight postId c]\<rparr>"
  by (simp add: saveContent_def callApi_def)

lemma saveContent_waits:
  "\<not> isSaving b \<Longrightarrow> truthy postId \<Longrightarrow> \<not> postId_mismatch postId c \<Longrightarrow>
   0 < retryCount b \<Longrightarrow>
     saveContent postId c b =
       b\<lparr>isSaving := True, status := Saving, error := JNull,
         pending := pending b @ [Backoff (now b + 2 ^ retryCount b * 1000) postId c]\<rparr>"
  by (simp add: saveContent_def Let_def)

text \<open>
  When the answer of the open API call arrives and the queue is not empty, the
  \<^verbatim>\<open>finally\<close> block calls \<^verbatim>\<open>saveContent\<close>, bound to the \<^verbatim>\<open>postId\<close> of the call
  that ended, with the last entry of the queue, in a state where no save is running, the
  queue is empty and no execution is under way.
\<close>

lemma exclusive_in_flight:
  assumes "exclusive s" and "task_at i s = Some (InFlight postId c0)"
  shows "isSaving s" and "filter executing (pending (without_task i s)) = []"
proof -
  from assms(2) have i: "i < length (pending s)" and t: "pending s ! i = InFlight postId c0"
    by (auto simp: task_at_def split: if_splits)
  from t have "executing (pending s ! i)" by simp
  from without_executing [OF assms(1) i this]
  show "isSaving s" and "filter executing (pending (without_task i s)) = []" by simp_all
qed

lemma completion_then_drain:
  assumes "exclusive s" and "task_at i s = Some (InFlight postId c0)"
    and "saveQueue s \<noteq> []"
    and "e = ApiResolves i \<or> e = ApiRejects i detail"
  shows "\<exists>base. step e s = saveContent postId (last (saveQueue s)) base
           \<and> \<not> isSaving base \<and> saveQueue base = []
           \<and> filter executing (pending base) = []
           \<and> apiCalls base = apiCalls s \<and> now base = now s"
proof -
  from exclusive_in_flight(2) [OF assms(1,2)]
  have none: "filter executing (pending (without_task i s)) = []" .
  have wq: "saveQueue (without_task i s) = saveQueue s"
    and wa: "apiCalls (without_task i s) = apiCalls s"
    and wn: "now (without_task i s) = now s"
    by (simp_all add: without_task_def)
  from assms(4) show ?thesis
  proof
    assume e: "e = ApiResolves i"
    let ?settled = "if isMounted (without_task i s)
        then (without_task i s)\<lparr>status := Saved, lastSaved := Some (now (without_task i s)),
               retryCount := 0\<rparr>
        else without_task i s"
    let ?base = "?settled\<lparr>isSaving := False, saveQueue := []\<rparr>"
    have "step e s = saveContent postId (last (saveQueue s)) ?base"
      using e assms(2,3) wq by (simp add: on_success_def finally_block_def Let_def)
    moreover have "\<not> isSaving ?base" "saveQueue ?base = []"
      "filter executing (pending ?base) = []" "apiCalls ?base = apiCalls s" "now ?base = now s"
      using none wa wn by simp_all
    ultimately show ?thesis by blast
  next
    assume e: "e = ApiRejects i detail"
    let ?w = "without_task i s"
    let ?settled = "if retryCount ?w < maxRetries then
          let s1 = ?w\<lparr>retryCount := retryCount ?w + 1\<rparr>
          in if isMounted s1
             then s1\<lparr>status := Retrying,
                     pending := pending s1 @ [RetryTimer (now s1 + 1000) postId c0]\<rparr>
             else s1
        else
          (if isMounted ?w
           then ?w\<lparr>status := Error,
                   error := (if truthy detail then detail else JStr ''Failed to save'')\<rparr>
           else ?w)\<lparr>retryCount := 0\<rparr>"
    let ?base = "?settled\<lparr>isSaving := False, saveQueue := []\<rparr>"
    have "step e s = saveContent postId (last (saveQueue s)) ?base"
      using e assms(2,3) wq by (simp add: on_failure_def finally_block_def Let_def)
    moreover have "\<not> isSaving ?base" "saveQueue ?base = []"
      "filter executing (pending ?base) = []" "apiCalls ?base = apiCalls s" "now ?base = now s"
      using none wa wn by (simp_all add: Let_def)
    ultimately show ?thesis by blast
  qed
qed

lemma drain_outcome:
  assumes "exclusive s" and "task_at i s = Some (InFlight postId c0)" and "truthy postId"
    and "saveQueue s \<noteq> []"
    and "e = ApiResolves i \<or> e = ApiRejects i detail"
  shows "saveQueue (step e s) = []"
    and "postId_mismatch postId (last (saveQueue s)) \<Longrightarrow>
           filter executing (pending (step e s)) = [] \<and> apiCalls (step e s) = apiCalls s"
    and "\<not> postId_mismatch postId (last (saveQueue s)) \<Longrightarrow>
           (filter executing (pending (step e s)) = [InFlight postId (last (saveQueue s))]
            \<and> apiCalls (step e s) = apiCalls s @
                 [\<lparr>call_time = now s, call_postId = postId,
                   call_body = contentForAPI (last (saveQueue s)),
                   call_request = last (saveQueue s)\<rparr>])
         \<or> (\<exists>due. filter executing (pending (step e s))
                     = [Backoff due postId (last (saveQueue s))]
                   \<and> apiCalls (step e s) = apiCalls s)"
proof -
  from completion_then_drain [OF assms(1,2,4,5)]
  obtain base where st: "step e s = saveContent postId (last (saveQueue s)) base"
    and b: "\<not> isSaving base" "saveQueue base = []" "filter executing (pending base) = []"
      "apiCalls base = apiCalls s" "now base = now s"
    by blast
  show "saveQueue (step e s) = []"
    using b assms(3) by (simp add: st saveContent_def callApi_def Let_def)
  show "filter executing (pending (step e s)) = [] \<and> apiCalls (step e s) = apiCalls s"
    if "postId_mismatch postId (last (saveQueue s))"
    using that b assms(3) by (simp add: st saveContent_drops)
  show "(filter executing (pending (step e s)) = [InFlight postId (last (saveQueue s))]
            \<and> apiCalls (step e s) = apiCalls s @
                 [\<lparr>call_time = now s, call_postId = postId,
                   call_body = contentForAPI (last (saveQueue s)),
                   call_request = last (saveQueue s)\<rparr>])
         \<or> (\<exists>due. filter executing (pending (step e s))
                     = [Backoff due postId (last (saveQueue s))]
                   \<and> apiCalls (step e s) = apiCalls s)"
    if ok: "\<not> postId_mismatch postId (last (saveQueue s))"
  proof (cases "retryCount base = 0")
    case True
    with b assms(3) ok show ?thesis
      by (simp add: st saveContent_calls)
  next
    case False
    with b assms(3) ok show ?thesis
      by (simp add: st saveContent_waits)
  qed
qed

lemma submits_queue:
  assumes "exclusive s" and "task_at i s = Some (InFlight postId c0)"
    and "truthy (currentPostId s)" and "Nullish \<notin> set cs"
  shows "run (map Submit cs) s = s\<lparr>saveQueue := saveQueue s @ cs\<rparr>"
  by (rule submits_while_saving [OF exclusive_in_flight(1) [OF assms(1,2)] assms(3,4)])

subsection \<open>Scenarios and invariants\<close>

text \<open>
  C1 (last write wins under load). The hook is idle, with nothing pending; \<open>R1\<close> is
  submitted for the open post and its API call is made at once; while that call is open,
  \<open>R2\<close> and then \<open>R3\<close> are submitted for the same post; the call for \<open>R1\<close> resolves, and
  so does the call that follows. Then the API has been called exactly twice, first for
  \<open>R1\<close> and then for \<open>R3\<close>, never for \<open>R2\<close>, and nothing is left pending or queued.
  (\<open>R1\<close> and \<open>R3\<close> belong to the post: they pass the test of line 45. The API calls are
  the latency-only fake of the specification: they resolve.)
\<close>

theorem last_write_wins:
  assumes "truthy (currentPostId s)"
    and "r1 \<noteq> Nullish" and "r2 \<noteq> Nullish" and "r3 \<noteq> Nullish"
    and "\<not> postId_mismatch (currentPostId s) r1"
    and "\<not> postId_mismatch (currentPostId s) r3"
    and "\<not> isSaving s" and "pending s = []" and "saveQueue s = []" and "retryCount s = 0"
  shows "let s' = run [Submit r1, Elapse a, Submit r2, Elapse b, Submit r3,
                       Elapse l1, ApiResolves 0, Elapse l2, ApiResolves 0] s
         in apiCalls s' = apiCalls s @
              [\<lparr>call_time = now s, call_postId = currentPostId s,
                call_body = contentForAPI r1, call_request = r1\<rparr>,
               \<lparr>call_time = now s + a + b + l1, call_postId = currentPostId s,
                call_body = contentForAPI r3, call_request = r3\<rparr>]
          \<and> pending s' = [] \<and> saveQueue s' = [] \<and> \<not> isSaving s'"
  using assms by (simp add: hook_defs)

text \<open>C1 at the three edits of the first post.\<close>

theorem last_write_wins_witness:
  "truthy (currentPostId (useAutoSave post1))
   \<and> \<not> postId_mismatch (currentPostId (useAutoSave post1)) edit1
   \<and> \<not> postId_mismatch (currentPostId (useAutoSave post1)) edit3
   \<and> map call_request (apiCalls
        (run [Submit edit1, Elapse 10, Submit edit2, Elapse 10, Submit edit3,
              Elapse 500, ApiResolves 0, Elapse 500, ApiResolves 0] (useAutoSave post1)))
      = [edit1, edit3]"
  using last_write_wins [of "useAutoSave post1" edit1 edit2 edit3 10 10 500 500]
  by (simp add: sample_defs Let_def)

text \<open>
  C2 as stated fails. \<open>R1\<close> is executing, \<open>R2\<close> is queued, the call for \<open>R1\<close>
  rejects: the \<^verbatim>\<open>catch\<close> block schedules the retry of \<open>R1\<close>, and the \<^verbatim>\<open>finally\<close>
  block, in the same turn, starts the execution of \<open>R2\<close>. The retry of \<open>R1\<close> is still
  scheduled and the queued request has begun.
\<close>

theorem retry_does_not_block_queue:
  "pending (run [Submit edit1, Submit edit2, ApiRejects 0 JUndefined] (useAutoSave post1))
     = [RetryTimer 1000 post1 edit1, Backoff 2000 post1 edit2]
   \<and> isSaving (run [Submit edit1, Submit edit2, ApiRejects 0 JUndefined] (useAutoSave post1))
   \<and> status (run [Submit edit1, Submit edit2, ApiRejects 0 JUndefined] (useAutoSave post1))
       = Saving"
  by (simp add: hook_defs sample_defs)

text \<open>
  C2, as amended. In every state the hook can reach, by any sequence of events, at most one
  API call is open; and while an execution is under way (a first attempt or a retry,
  waiting for its backoff timer or for the API), \<^verbatim>\<open>isSaving\<close> is set and every call of
  \<^verbatim>\<open>saveContent\<close>, from a new submission or from a retry timer that fires, only appends
  to the queue. A retry that is merely scheduled (its one-second timer not yet fired)
  holds nothing back.
\<close>

theorem in_flight_exclusive:
  "length (filter in_flight (pending (run es (useAutoSave post)))) \<le> 1
   \<and> ((\<exists>t \<in> set (pending (run es (useAutoSave post))). executing t) \<longrightarrow>
        isSaving (run es (useAutoSave post))
        \<and> saveContent postId c (run es (useAutoSave post)) =
            (run es (useAutoSave post))
              \<lparr>saveQueue := saveQueue (run es (useAutoSave post)) @ [c]\<rparr>)"
proof -
  let ?s = "run es (useAutoSave post)"
  have ex: "exclusive ?s"
    by (rule run_exclusive [OF useAutoSave_exclusive])
  have "length (filter in_flight (pending ?s)) \<le> length (filter executing (pending ?s))"
    by (rule in_flight_le_executing)
  also from ex have "\<dots> \<le> 1" by (simp add: exclusive_def)
  finally have one: "length (filter in_flight (pending ?s)) \<le> 1" .
  have blocked: "isSaving ?s \<and> saveContent postId c ?s = ?s\<lparr>saveQueue := saveQueue ?s @ [c]\<rparr>"
    if "\<exists>t \<in> set (pending ?s). executing t"
  proof -
    from that have "filter executing (pending ?s) \<noteq> []"
      by (simp add: filter_empty_conv)
    with ex have "isSaving ?s"
      by (auto simp: exclusive_def split: if_splits)
    then show ?thesis by (simp add: saveContent_def)
  qed
  from one blocked show ?thesis by blast
qed

text \<open>C2 (amended) while the first call for the first post is open.\<close>

theorem in_flight_exclusive_witness:
  "(\<exists>t \<in> set (pending (run [Submit edit1] (useAutoSave post1))). executing t)
   \<and> saveQueue (saveContent post1 edit2 (run [Submit edit1] (useAutoSave post1))) = [edit2]"
  using in_flight_exclusive [of "[Submit edit1]" post1 post1 edit2]
  by (simp add: hook_defs sample_defs)

text \<open>
  C3 as stated fails: two submissions while a save is running leave two entries in
  \<^verbatim>\<open>saveQueue\<close>.
\<close>

theorem queue_holds_two:
  "length (saveQueue (run [Submit edit1, Submit edit2, Submit edit3] (useAutoSave post1))) = 2"
  by (simp add: hook_defs sample_defs)

text \<open>
  C3, as amended. While a save is running, every submission is appended to \<^verbatim>\<open>saveQueue\<close>,
  which therefore holds as many entries as were submitted. When the running attempt ends,
  whether its API call resolves or rejects, the queue is emptied and only the entry
  appended last is handed to \<^verbatim>\<open>saveContent\<close>, bound to the \<^verbatim>\<open>postId\<close> of the attempt
  that ended: that entry is the one request whose execution starts, unless its
  \<^verbatim>\<open>postId\<close> fails the test of line 45, in which case nothing starts. At most one API
  call is made at that moment, for that entry; no older entry is ever executed.
\<close>

theorem queue_drain_keeps_latest:
  assumes "exclusive s" and "task_at i s = Some (InFlight postId c0)" and "truthy postId"
    and "truthy (currentPostId s)" and "cs \<noteq> []" and "Nullish \<notin> set cs"
    and "e = ApiResolves i \<or> e = ApiRejects i detail"
  shows "saveQueue (run (map Submit cs) s) = saveQueue s @ cs
       \<and> saveQueue (step e (run (map Submit cs) s)) = []
       \<and> map task_request (filter executing (pending (step e (run (map Submit cs) s))))
           = (if postId_mismatch postId (last cs) then [] else [last cs])
       \<and> (apiCalls (step e (run (map Submit cs) s)) = apiCalls s
          \<or> apiCalls (step e (run (map Submit cs) s)) = apiCalls s @
               [\<lparr>call_time = now s, call_postId = postId,
                 call_body = contentForAPI (last cs), call_request = last cs\<rparr>])"
proof -
  let ?q = "s\<lparr>saveQueue := saveQueue s @ cs\<rparr>"
  have q: "run (map Submit cs) s = ?q"
    by (rule submits_queue [OF assms(1,2,4,6)])
  have ex: "exclusive ?q" using assms(1) by (simp add: exclusive_def)
  have at: "task_at i ?q = Some (InFlight postId c0)"
    using assms(2) by (simp add: task_at_saveQueue)
  have ne: "saveQueue ?q \<noteq> []" using assms(5) by simp
  have lst: "last (saveQueue ?q) = last cs" using assms(5) by simp
  note d = drain_outcome [OF ex at assms(3) ne assms(7), unfolded lst]
  show ?thesis
  proof (cases "postId_mismatch postId (last cs)")
    case True
    with d(1) d(2) [OF True] show ?thesis by (simp add: q)
  next
    case False
    from d(3) [OF False] d(1) False show ?thesis by (auto simp: q)
  qed
qed

text \<open>C3 (amended) with two edits queued behind the first, whose call rejects.\<close>

theorem queue_drain_keeps_latest_witness:
  "exclusive (run [Submit edit1] (useAutoSave post1))
   \<and> task_at 0 (run [Submit edit1] (useAutoSave post1)) = Some (InFlight post1 edit1)
   \<and> saveQueue (run (map Submit [edit2, edit3]) (run [Submit edit1] (useAutoSave post1)))
       = [edit2, edit3]
   \<and> map task_request (filter executing (pending (step (ApiRejects 0 JUndefined)
        (run (map Submit [edit2, edit3]) (run [Submit edit1] (useAutoSave post1))))))
       = [edit3]
   \<and> saveQueue (step (ApiRejects 0 JUndefined)
        (run (map Submit [edit2, edit3]) (run [Submit edit1] (useAutoSave post1)))) = []"
  using queue_drain_keeps_latest [of "run [Submit edit1] (useAutoSave post1)" 0 post1 edit1
      "[edit2, edit3]" "ApiRejects 0 JUndefined" JUndefined]
  by (simp add: hook_defs sample_defs exclusive_def)

text \<open>
  C4 as stated fails when requests overlap: the retry count is one counter for the whole
  hook. Two edits that always fail, the second submitted while the first call is open,
  get six and two attempts before the status is \<open>Error\<close> and nothing is left pending.
\<close>

theorem overlapping_requests_share_retries:
  "map call_request (apiCalls (run overlapping_failures (useAutoSave post1)))
     = [edit1, edit2, edit1, edit2, edit1, edit1, edit1, edit1]
   \<and> status (run overlapping_failures (useAutoSave post1)) = Error
   \<and> retryCount (run overlapping_failures (useAutoSave post1)) = 0
   \<and> pending (run overlapping_failures (useAutoSave post1)) = []
   \<and> saveQueue (run overlapping_failures (useAutoSave post1)) = []"
  by (simp add: overlapping_failures_def hook_defs sample_defs)

text \<open>
  C4, as amended (retry exhaustion of a request that runs alone). The hook is mounted and
  idle, with nothing pending or queued and a retry count of zero; a request of the open
  post is submitted, nothing else happens to the hook while it runs (no other submission,
  no other post opened, no unmount), and every API call for it rejects, whatever the latencies \<open>l\<close>, the causes \<open>d\<close>, and however late (\<open>x\<close>,
  \<open>y\<close>) the timers fire. Then the API has been called exactly \<open>maxRetries + 1 = 4\<close>
  more times, each time for that request; the status is \<open>Error\<close>; the error is the cause
  of the last failure (or \<^verbatim>\<open>'Failed to save'\<close> when it has none); the retry count is
  back to zero; and no timer, call or queued request is left.
\<close>

theorem retry_exhaustion:
  assumes "truthy (currentPostId s)" and "c \<noteq> Nullish"
    and "\<not> postId_mismatch (currentPostId s) c"
    and "isMounted s" and "\<not> isSaving s" and "pending s = []" and "saveQueue s = []"
    and "retryCount s = 0"
  shows "let s' = run [Submit c, Elapse l1, ApiRejects 0 d1,
                       Elapse (1000 + x1), TimerFires 0, Elapse (2000 + y1), TimerFires 0,
                       Elapse l2, ApiRejects 0 d2,
                       Elapse (1000 + x2), TimerFires 0, Elapse (4000 + y2), TimerFires 0,
                       Elapse l3, ApiRejects 0 d3,
                       Elapse (1000 + x3), TimerFires 0, Elapse (8000 + y3), TimerFires 0,
                       Elapse l4, ApiRejects 0 d4] s
         in map (\<lambda>k. (call_postId k, call_body k, call_request k)) (apiCalls s')
              = map (\<lambda>k. (call_postId k, call_body k, call_request k)) (apiCalls s) @
                [(currentPostId s, contentForAPI c, c), (currentPostId s, contentForAPI c, c),
                 (currentPostId s, contentForAPI c, c), (currentPostId s, contentForAPI c, c)]
          \<and> length (apiCalls s') = length (apiCalls s) + (maxRetries + 1)
          \<and> status s' = Error
          \<and> error s' = (if truthy d4 then d4 else JStr ''Failed to save'')
          \<and> retryCount s' = 0
          \<and> pending s' = [] \<and> saveQueue s' = [] \<and> \<not> isSaving s'"
  using assms by (simp add: hook_defs)

text \<open>C4 (amended) for an edit of the first post against a server that is down.\<close>

theorem retry_exhaustion_witness:
  "truthy (currentPostId (useAutoSave post1)) \<and> edit1 \<noteq> Nullish
   \<and> \<not> postId_mismatch (currentPostId (useAutoSave post1)) edit1
   \<and> length (apiCalls (run [Submit edit1, Elapse 50, ApiRejects 0 (JStr ''Server down''),
                       Elapse (1000 + 0), TimerFires 0, Elapse (2000 + 0), TimerFires 0,
                       Elapse 50, ApiRejects 0 (JStr ''Server down''),
                       Elapse (1000 + 0), TimerFires 0, Elapse (4000 + 0), TimerFires 0,
                       Elapse 50, ApiRejects 0 (JStr ''Server down''),
                       Elapse (1000 + 0), TimerFires 0, Elapse (8000 + 0), TimerFires 0,
                       Elapse 50, ApiRejects 0 (JStr ''Server down'')] (useAutoSave post1))) = 4
   \<and> error (run [Submit edit1, Elapse 50, ApiRejects 0 (JStr ''Server down''),
                       Elapse (1000 + 0), TimerFires 0, Elapse (2000 + 0), TimerFires 0,
                       Elapse 50, ApiRejects 0 (JStr ''Server down''),
                       Elapse (1000 + 0), TimerFires 0, Elapse (4000 + 0), TimerFires 0,
                       Elapse 50, ApiRejects 0 (JStr ''Server down''),
                       Elapse (1000 + 0), TimerFires 0, Elapse (8000 + 0), TimerFires 0,
                       Elapse 50, ApiRejects 0 (JStr ''Server down'')] (useAutoSave post1))
       = JStr ''Server down''"
  using retry_exhaustion [of "useAutoSave post1" edit1
      50 "JStr ''Server down''" 0 0 50 "JStr ''Server down''" 0 0 50 "JStr ''Server down''" 0 0
      50 "JStr ''Server down''"]
  by (simp add: hook_defs sample_defs)

text \<open>
  C5 (retry backoff schedule), evaluated. The API rejects twice and then resolves, each
  answer arriving at once and each timer firing the moment it is due. The three calls are
  made at 0, 3000 and 8000 milliseconds: 3 and 5 seconds after the failures, not 1 and 2,
  because the retry timer of line 91 waits one second and the re-entered
  \<^verbatim>\<open>saveContent\<close> then waits \<open>2 ^ retryCount\<close> seconds with \<open>retryCount\<close> already
  incremented. One second after the first failure no second call has been made: the
  execution is waiting for its backoff timer, due at 3000. The final status is \<open>Saved\<close>.
\<close>

theorem backoff_delays_observed:
  "map call_time (apiCalls (run fails_twice (useAutoSave post1))) = [0, 3000, 8000]
   \<and> map call_request (apiCalls (run fails_twice (useAutoSave post1))) = [edit1, edit1, edit1]
   \<and> status (run fails_twice (useAutoSave post1)) = Saved
   \<and> map call_time (apiCalls (run one_second_after_failure (useAutoSave post1))) = [0]
   \<and> pending (run one_second_after_failure (useAutoSave post1)) = [Backoff 3000 post1 edit1]"
  by (simp add: fails_twice_def one_second_after_failure_def hook_defs sample_defs)

text \<open>
  C6 as stated fails. An edit of the first post fails once and its retry is scheduled;
  the second post becomes the open one; the retry fires. The request names the first
  post, the open post is the second, and yet the request is not dropped: three seconds
  after the failure the API is called for it (with the first post's identity).
\<close>

theorem retry_outlives_switch:
  "currentPostId (run retry_after_switch (useAutoSave post1)) = post2
   \<and> postId_mismatch post2 edit1
   \<and> map (\<lambda>k. (call_time k, call_postId k, call_request k))
        (apiCalls (run retry_after_switch (useAutoSave post1)))
      = [(0, post1, edit1), (3000, post1, edit1)]"
  by (simp add: retry_after_switch_def hook_defs sample_defs)

text \<open>
  C6, as amended. (1) Whatever the sequence of events, every call of
  \<^verbatim>\<open>postsAPI.update\<close> that the hook has made for a request carrying a truthy
  \<^verbatim>\<open>postId\<close> was sent to exactly that \<^verbatim>\<open>postId\<close>: a request that names its post is
  never written under another post's identity. (2) \<^verbatim>\<open>saveContent\<close> bound to a
  \<^verbatim>\<open>postId\<close>, called while no save is running with a request that names another post,
  returns with the state unchanged. (3) A request submitted while it names another post
  than the open one makes no API call and starts no execution at that moment: it is
  dropped when no save is running, and appended to the queue when one is. Nothing more is
  promised: such a request is still executed later, under its own \<^verbatim>\<open>postId\<close>, when a
  closure bound to that \<^verbatim>\<open>postId\<close> handles it (a retry scheduled before the switch,
  or the queue drained by the save of its own post); and a payload without \<^verbatim>\<open>postId\<close>
  is outside this guard.
\<close>

theorem cross_document_guard:
  "(\<forall>k \<in> set (apiCalls (run es (useAutoSave post))).
      truthy (payload_postId (call_request k)) \<longrightarrow>
      call_postId k = payload_postId (call_request k))
   \<and> (postId_mismatch postId c \<and> truthy postId \<and> \<not> isSaving s \<longrightarrow>
        saveContent postId c s = s)
   \<and> (postId_mismatch (currentPostId s) c \<longrightarrow>
        apiCalls (step (Submit c) s) = apiCalls s
        \<and> pending (step (Submit c) s) = pending s
        \<and> (\<not> isSaving s \<longrightarrow> step (Submit c) s = s)
        \<and> (isSaving s \<and> truthy (currentPostId s) \<longrightarrow>
             step (Submit c) s = s\<lparr>saveQueue := saveQueue s @ [c]\<rparr>))"
proof -
  have "guarded (run es (useAutoSave post))"
    by (rule run_guarded [OF useAutoSave_guarded])
  then have "\<forall>k \<in> set (apiCalls (run es (useAutoSave post))).
      truthy (payload_postId (call_request k)) \<longrightarrow>
      call_postId k = payload_postId (call_request k)"
    by (auto simp: guarded_def postId_mismatch_def)
  moreover have "postId_mismatch postId c \<and> truthy postId \<and> \<not> isSaving s \<longrightarrow>
        saveContent postId c s = s"
    by (simp add: saveContent_drops)
  moreover have "postId_mismatch (currentPostId s) c \<longrightarrow>
        apiCalls (step (Submit c) s) = apiCalls s
        \<and> pending (step (Submit c) s) = pending s
        \<and> (\<not> isSaving s \<longrightarrow> step (Submit c) s = s)
        \<and> (isSaving s \<and> truthy (currentPostId s) \<longrightarrow>
             step (Submit c) s = s\<lparr>saveQueue := saveQueue s @ [c]\<rparr>)"
    by (auto simp: trigger_save_def saveContent_def postId_mismatch_def)
  ultimately show ?thesis by blast
qed

text \<open>
  C6 (amended) when the second post is opened while the stale content of the first is
  still what the debounce delivers.
\<close>

theorem cross_document_guard_witness:
  "postId_mismatch (currentPostId (useAutoSave post2)) edit1
   \<and> truthy post2 \<and> \<not> isSaving (useAutoSave post2)
   \<and> step (Submit edit1) (useAutoSave post2) = useAutoSave post2
   \<and> saveContent post2 edit1 (useAutoSave post2) = useAutoSave post2
   \<and> map (\<lambda>k. (call_postId k, call_request k))
        (apiCalls (run [Submit edit1, ApiResolves 0, PostIdChanged post2 edit2, Submit edit3]
           (useAutoSave post1)))
      = [(post1, edit1)]"
  using cross_document_guard [of "[Submit edit1, ApiResolves 0, PostIdChanged post2 edit2,
      Submit edit3]" post1 post2 edit1 "useAutoSave post2"]
  by (simp add: hook_defs sample_defs)

text \<open>
  C7 as stated fails: after one failed attempt the retry count is \<open>1\<close>, and opening
  another post leaves it at \<open>1\<close>.
\<close>

theorem retryCount_survives_switch:
  "retryCount (run [Submit edit1, ApiRejects 0 JUndefined, PostIdChanged post2 Nullish]
     (useAutoSave post1)) = 1
   \<and> currentPostId (run [Submit edit1, ApiRejects 0 JUndefined, PostIdChanged post2 Nullish]
     (useAutoSave post1)) = post2"
  by (simp add: hook_defs sample_defs)

text \<open>
  C7, as amended. When an API call resolves while the hook is mounted, the retry count is
  reset to zero. A render with another \<^verbatim>\<open>postId\<close> empties the queue and leaves the retry
  count as it was.
\<close>

theorem retryCount_reset:
  "(task_at i s = Some (InFlight postId c) \<and> isMounted s \<longrightarrow>
      retryCount (step (ApiResolves i) s) = 0)
   \<and> retryCount (step (PostIdChanged newPostId debouncedContent) s) = retryCount s
   \<and> (newPostId \<noteq> currentPostId s \<longrightarrow>
        saveQueue (step (PostIdChanged newPostId debouncedContent) s) = [])"
  by (simp add: on_success_def finally_block_retryCount without_task_def
      trigger_save_retryCount postId_changed_def)

text \<open>C7 (amended) when the first retry of an edit succeeds.\<close>

theorem retryCount_reset_witness:
  "task_at 0 (run [Submit edit1, ApiRejects 0 JUndefined,
                   Elapse 1000, TimerFires 0, Elapse 2000, TimerFires 0] (useAutoSave post1))
     = Some (InFlight post1 edit1)
   \<and> retryCount (run [Submit edit1, ApiRejects 0 JUndefined,
                   Elapse 1000, TimerFires 0, Elapse 2000, TimerFires 0] (useAutoSave post1)) = 1
   \<and> retryCount (step (ApiResolves 0)
        (run [Submit edit1, ApiRejects 0 JUndefined,
              Elapse 1000, TimerFires 0, Elapse 2000, TimerFires 0] (useAutoSave post1))) = 0
   \<and> post2 \<noteq> currentPostId (useAutoSave post1)"
  using retryCount_reset [of 0
      "run [Submit edit1, ApiRejects 0 JUndefined,
            Elapse 1000, TimerFires 0, Elapse 2000, TimerFires 0] (useAutoSave post1)"
      post1 edit1 post2 Nullish]
    retryCount_reset [of 0 "useAutoSave post1" post1 edit1 post2 Nullish]
  by (simp add: hook_defs sample_defs)

text \<open>
  C10 as stated fails for payloads submitted while a save is running. A save of the first
  post is under way when the second post is opened and two payloads without \<^verbatim>\<open>postId\<close>
  are submitted there. The first of them is never sent; the second is sent, not to the
  open post, but to the first post, whose save drained the queue.
\<close>

theorem untagged_payload_goes_to_previous_post:
  "currentPostId (run typed_under_second_post (useAutoSave post1)) = post2
   \<and> \<not> truthy (payload_postId untagged1) \<and> \<not> truthy (payload_postId untagged2)
   \<and> map (\<lambda>k. (call_postId k, call_request k))
        (apiCalls (run typed_under_second_post (useAutoSave post1)))
      = [(post1, edit1), (post1, untagged2)]
   \<and> saveQueue (run typed_under_second_post (useAutoSave post1)) = []"
  by (simp add: typed_under_second_post_def untagged1_def untagged2_def hook_defs sample_defs)

text \<open>
  C10, as amended (no \<^verbatim>\<open>postId\<close> in the payload). A payload object without a
  \<^verbatim>\<open>postId\<close> field, or with a falsy one, passes the test of line 45 against any
  \<^verbatim>\<open>postId\<close> whatever, and the body made from it has every field of the payload
  except \<^verbatim>\<open>postId\<close>. Submitted while no save is running, it is handled by
  \<^verbatim>\<open>saveContent\<close> bound to the open post; and \<^verbatim>\<open>saveContent\<close> bound to any truthy
  \<^verbatim>\<open>postId\<close>, with no save running, sends it to that \<^verbatim>\<open>postId\<close>, at once when the
  retry count is zero and when the backoff timer fires otherwise (the retry count being
  at most \<open>maxRetries\<close>, as it is in every state the hook reaches). Submitted while a save
  is running, it is queued; if it is still the last entry when that attempt ends, its
  execution starts bound to the \<^verbatim>\<open>postId\<close> of the attempt that ended, which need not
  be the open post; if other submissions followed it, the queue is emptied when the
  attempt ends and only the last of those is executed.
\<close>

theorem missing_postId_skips_guard:
  assumes "\<not> truthy (payload_postId (Obj props))" and "truthy postId"
  shows "\<not> postId_mismatch anyPostId (Obj props)
       \<and> (\<forall>field. map_of (contentForAPI (Obj props)) field =
            (if field = ''postId'' then None else map_of props field))
       \<and> (\<not> isSaving s \<and> currentPostId s = postId \<longrightarrow>
            step (Submit (Obj props)) s = saveContent postId (Obj props) s)
       \<and> (\<not> isSaving s \<and> retryCount s = 0 \<longrightarrow>
            apiCalls (saveContent postId (Obj props) s) =
              apiCalls s @ [\<lparr>call_time = now s, call_postId = postId,
                              call_body = contentForAPI (Obj props),
                              call_request = Obj props\<rparr>])
       \<and> (\<not> isSaving s \<and> 0 < retryCount s \<and> retryCount s \<le> maxRetries \<longrightarrow>
            apiCalls (step (TimerFires (length (pending s)))
                       (step (Elapse (2 ^ retryCount s * 1000))
                          (saveContent postId (Obj props) s))) =
              apiCalls s @ [\<lparr>call_time = now s + 2 ^ retryCount s * 1000,
                              call_postId = postId,
                              call_body = contentForAPI (Obj props),
                              call_request = Obj props\<rparr>])
       \<and> (exclusive s \<and> task_at i s = Some (InFlight postId c0) \<and> truthy (currentPostId s)
            \<and> (e = ApiResolves i \<or> e = ApiRejects i detail) \<longrightarrow>
            map (\<lambda>t. (task_postId t, task_request t))
              (filter executing (pending (step e (step (Submit (Obj props)) s))))
              = [(postId, Obj props)])
       \<and> (exclusive s \<and> task_at i s = Some (InFlight postId c0) \<and> truthy (currentPostId s)
            \<and> later \<noteq> [] \<and> Nullish \<notin> set later
            \<and> (e = ApiResolves i \<or> e = ApiRejects i detail) \<longrightarrow>
            saveQueue (step e (run (map Submit (Obj props # later)) s)) = []
            \<and> map task_request
                (filter executing (pending (step e (run (map Submit (Obj props # later)) s))))
                = (if postId_mismatch postId (last later) then [] else [last later]))"
proof -
  let ?c = "Obj props"
  from assms(1) have skip: "\<not> postId_mismatch anyPostId ?c" for anyPostId
    by (simp add: postId_mismatch_def)
  have body: "\<forall>field. map_of (contentForAPI ?c) field =
            (if field = ''postId'' then None else map_of props field)"
    by (simp add: map_of_without_key)
  have submit: "\<not> isSaving s \<and> currentPostId s = postId \<longrightarrow>
            step (Submit ?c) s = saveContent postId ?c s"
    using assms(2) by (simp add: trigger_save_def)
  have at_once: "\<not> isSaving s \<and> retryCount s = 0 \<longrightarrow>
            apiCalls (saveContent postId ?c s) =
              apiCalls s @ [\<lparr>call_time = now s, call_postId = postId,
                              call_body = contentForAPI ?c, call_request = ?c\<rparr>]"
    using assms(2) skip by (simp add: saveContent_calls)
  have later: "\<not> isSaving s \<and> 0 < retryCount s \<and> retryCount s \<le> maxRetries \<longrightarrow>
            apiCalls (step (TimerFires (length (pending s)))
                       (step (Elapse (2 ^ retryCount s * 1000)) (saveContent postId ?c s))) =
              apiCalls s @ [\<lparr>call_time = now s + 2 ^ retryCount s * 1000,
                              call_postId = postId,
                              call_body = contentForAPI ?c, call_request = ?c\<rparr>]"
    using assms(2) skip
    by (simp add: saveContent_waits task_at_def without_task_def callApi_def)
  have queued: "map (\<lambda>t. (task_postId t, task_request t))
              (filter executing (pending (step e (step (Submit ?c) s))))
              = [(postId, ?c)]"
    if h: "exclusive s \<and> task_at i s = Some (InFlight postId c0) \<and> truthy (currentPostId s)
            \<and> (e = ApiResolves i \<or> e = ApiRejects i detail)"
  proof -
    let ?q = "s\<lparr>saveQueue := saveQueue s @ [?c]\<rparr>"
    from h have "run (map Submit [?c]) s = ?q"
      by (intro submits_queue [of s i postId c0]) simp_all
    then have q: "step (Submit ?c) s = ?q" by simp
    have ex: "exclusive ?q" using h by (simp add: exclusive_def)
    have at: "task_at i ?q = Some (InFlight postId c0)"
      using h by (simp add: task_at_saveQueue)
    have ne: "saveQueue ?q \<noteq> []" by simp
    from h have e: "e = ApiResolves i \<or> e = ApiRejects i detail" by simp
    have lst: "last (saveQueue ?q) = ?c" by simp
    have ok: "\<not> postId_mismatch postId (last (saveQueue ?q))"
      unfolding lst by (rule skip)
    from drain_outcome(3) [OF ex at assms(2) ne e ok] show ?thesis
      unfolding q lst by auto
  qed
  have superseded: "saveQueue (step e (run (map Submit (?c # later)) s)) = []
            \<and> map task_request
                (filter executing (pending (step e (run (map Submit (?c # later)) s))))
                = (if postId_mismatch postId (last later) then [] else [last later])"
    if h: "exclusive s \<and> task_at i s = Some (InFlight postId c0) \<and> truthy (currentPostId s)
            \<and> later \<noteq> [] \<and> Nullish \<notin> set later
            \<and> (e = ApiResolves i \<or> e = ApiRejects i detail)"
  proof -
    let ?q = "s\<lparr>saveQueue := saveQueue s @ ?c # later\<rparr>"
    from h have q: "run (map Submit (?c # later)) s = ?q"
      by (intro submits_queue [of s i postId c0]) simp_all
    have ex: "exclusive ?q" using h by (simp add: exclusive_def)
    have at: "task_at i ?q = Some (InFlight postId c0)"
      using h by (simp add: task_at_saveQueue)
    have ne: "saveQueue ?q \<noteq> []" by simp
    from h have e: "e = ApiResolves i \<or> e = ApiRejects i detail" by simp
    from h have lst: "last (saveQueue ?q) = last later" by simp
    note d = drain_outcome [OF ex at assms(2) ne e, unfolded lst]
    show ?thesis
      unfolding q
    proof (cases "postId_mismatch postId (last later)")
      case True
      with d(1) d(2) [OF True] show "saveQueue (step e ?q) = []
          \<and> map task_request (filter executing (pending (step e ?q)))
              = (if postId_mismatch postId (last later) then [] else [last later])"
        by simp
    next
      case False
      from d(3) [OF False] d(1) False show "saveQueue (step e ?q) = []
          \<and> map task_request (filter executing (pending (step e ?q)))
              = (if postId_mismatch postId (last later) then [] else [last later])"
        by auto
    qed
  qed
  from skip body submit at_once later queued superseded show ?thesis by blast
qed

text \<open>
  C10 (amended) for a payload without the field, submitted with the second post open:
  to an idle hook, and behind a save of the first post.
\<close>

theorem missing_postId_skips_guard_witness:
  "\<not> truthy (payload_postId untagged2) \<and> truthy post1 \<and> truthy post2
   \<and> map (\<lambda>k. (call_postId k, call_body k))
        (apiCalls (step (Submit untagged2) (useAutoSave post2)))
      = [(post2, [(''title'', JStr ''xy''), (''content'', JRef 2)])]
   \<and> exclusive (run [Submit edit1, PostIdChanged post2 Nullish] (useAutoSave post1))
   \<and> task_at 0 (run [Submit edit1, PostIdChanged post2 Nullish] (useAutoSave post1))
       = Some (InFlight post1 edit1)
   \<and> map (\<lambda>t. (task_postId t, task_request t))
        (filter executing (pending (step (ApiResolves 0) (step (Submit untagged2)
           (run [Submit edit1, PostIdChanged post2 Nullish] (useAutoSave post1))))))
      = [(post1, untagged2)]
   \<and> \<not> truthy (payload_postId untagged1)
   \<and> map task_request
        (filter executing (pending (step (ApiResolves 0)
           (run (map Submit [untagged1, untagged2])
              (run [Submit edit1, PostIdChanged post2 Nullish] (useAutoSave post1))))))
      = [untagged2]"
  using missing_postId_skips_guard
      [where props = "[(''title'', JStr ''xy''), (''content'', JRef 2)]"
         and postId = post2 and s = "useAutoSave post2"]
    missing_postId_skips_guard
      [where props = "[(''title'', JStr ''xy''), (''content'', JRef 2)]"
         and postId = post1
         and s = "run [Submit edit1, PostIdChanged post2 Nullish] (useAutoSave post1)"
         and i = 0 and ?c0.0 = edit1 and e = "ApiResolves 0"]
    missing_postId_skips_guard
      [where props = "[(''title'', JStr ''x''), (''content'', JRef 1)]"
         and postId = post1
         and s = "run [Submit edit1, PostIdChanged post2 Nullish] (useAutoSave post1)"
         and i = 0 and ?c0.0 = edit1 and e = "ApiResolves 0" and later = "[untagged2]"]
  by (simp add: hook_defs sample_defs untagged1_def untagged2_def exclusive_def)

end
